theory Spec2Isabelle
  imports Main "HOL-Library.Word" "HOL-Library.Multiset"
begin

section \<open>TaskWeave: edges, nodes, tasks, the thread pool and its executor\<close>

text \<open>
  A shallow embedding of the C++ headers \<^verbatim>\<open>TaskWeave/IEdge.h\<close>, \<^verbatim>\<open>TaskWeave/Edge.h\<close>,
  \<^verbatim>\<open>TaskWeave/Node.h\<close>, \<^verbatim>\<open>TaskWeave/Task.h\<close>, \<^verbatim>\<open>TaskWeave/Helper.h\<close>,
  \<^verbatim>\<open>Executor/ThreadPool.h\<close> and \<^verbatim>\<open>Executor/ThreadPoolExecutor.h\<close>.

  Objects are records, member functions take the object and return the updated one;
  a data member \<^verbatim>\<open>x_\<close> of the source is the field \<open>x_m\<close>.
  Statements that no other thread can separate in a way that shows are one function, so
  that a run of several threads is a sequence of such functions. A blocking wait is a
  partial step: it returns \<open>None\<close> while the thread cannot proceed.
\<close>

subsection \<open>IEdge and Edge<T>\<close>

text \<open>
  \<^verbatim>\<open>IEdge\<close> holds the owner pointer and the atomic flag; \<^verbatim>\<open>Edge<T>\<close> adds the member
  \<^verbatim>\<open>T data_{}\<close>. Node addresses are natural numbers. \<^verbatim>\<open>Edge<void>\<close> has no data member:
  its \<open>data_m\<close> field is never written.
\<close>

record 'v Edge =
  owner_m :: nat
  data_m :: 'v
  is_retrievable_m :: bool

text \<open>The constructor \<^verbatim>\<open>Edge(INode* owner)\<close>; \<open>init\<close> is the value-initialised \<^verbatim>\<open>T{}\<close>.\<close>

definition Edge_new :: "nat \<Rightarrow> 'v \<Rightarrow> 'v Edge" where
  "Edge_new owner init = \<lparr>owner_m = owner, data_m = init, is_retrievable_m = False\<rparr>"

definition is_retrievable :: "'v Edge \<Rightarrow> bool" where
  "is_retrievable e = is_retrievable_m e"

definition get_owner :: "'v Edge \<Rightarrow> nat" where
  "get_owner e = owner_m e"

text \<open>\<^verbatim>\<open>IEdge::set_as_retrievable\<close>: store true under the edge's mutex, then notify all.\<close>

definition set_as_retrievable :: "'v Edge \<Rightarrow> 'v Edge" where
  "set_as_retrievable e = e\<lparr>is_retrievable_m := True\<rparr>"

text \<open>\<^verbatim>\<open>Edge<T>::set_data\<close>: \<^verbatim>\<open>data_ = data; set_as_retrievable();\<close> with no test of the flag.\<close>

definition set_data :: "'v \<Rightarrow> 'v Edge \<Rightarrow> 'v Edge" where
  "set_data d e = set_as_retrievable (e\<lparr>data_m := d\<rparr>)"

text \<open>\<^verbatim>\<open>Edge<void>::set_data\<close>.\<close>

definition set_data_void :: "'v Edge \<Rightarrow> 'v Edge" where
  "set_data_void e = set_as_retrievable e"

definition get_data :: "'v Edge \<Rightarrow> 'v" where
  "get_data e = data_m e"

text \<open>
  \<^verbatim>\<open>IEdge::wait_until_retrievable\<close> returns once the flag is set; until then the caller
  stays blocked (\<open>None\<close>).
\<close>

definition wait_until_retrievable :: "'v Edge \<Rightarrow> unit option" where
  "wait_until_retrievable e = (if is_retrievable_m e then Some () else None)"

subsection \<open>ThreadPool\<close>

text \<open>
  What \<^verbatim>\<open>add_task\<close> can be given: a function pointer or a \<^verbatim>\<open>std::function\<close>, either of
  which may be null, or any other callable object (a lambda, a functor), which the
  \<^verbatim>\<open>if constexpr\<close> does not test. \<open>'c\<close> is the type of the closures the queue holds.
\<close>

datatype 'c callable = FnPtr "'c option" | StdFunction "'c option" | Functor 'c

fun is_null :: "'c callable \<Rightarrow> bool" where
  "is_null (FnPtr None) = True"
| "is_null (StdFunction None) = True"
| "is_null _ = False"

fun closure_of :: "'c callable \<Rightarrow> 'c option" where
  "closure_of (FnPtr f) = f"
| "closure_of (StdFunction f) = f"
| "closure_of (Functor f) = Some f"

text \<open>
  A worker thread runs \<^verbatim>\<open>execute_task\<close> again and again. Where it is in that function,
  with the closure in its local \<^verbatim>\<open>task_to_do\<close>: it holds no closure (\<open>NoTask\<close>: outside the
  function, or \<^verbatim>\<open>task_to_do\<close> is empty); it has moved the front of the queue into
  \<^verbatim>\<open>task_to_do\<close> and has not finished calling it (\<open>Popped\<close>); the call has returned and
  \<^verbatim>\<open>wait_mtx_\<close> is to be locked (\<open>Returned\<close>); it holds \<^verbatim>\<open>wait_mtx_\<close> and has executed
  \<^verbatim>\<open>fetch_sub(1)\<close>, the load of the counter being next (\<open>Decremented\<close>).
\<close>

datatype 'c worker = NoTask | Popped 'c | Returned 'c | Decremented 'c

text \<open>
  The members of \<^verbatim>\<open>ThreadPool\<close>. \<open>tasks_m\<close> is the \<^verbatim>\<open>std::queue\<close>, front first.
  \<open>active_task_count_m\<close> is the \<^verbatim>\<open>std::atomic<int>\<close>, whose arithmetic wraps.
  \<open>workers_m\<close> has one entry for each spawned thread. \<open>wait_mtx_m\<close> is the worker that
  holds \<^verbatim>\<open>wait_mtx_\<close>, if one does. \<open>on_complete_m\<close> tells whether a callback was given, and
  \<open>on_complete_calls\<close> counts how often it has been invoked. The mutexes \<^verbatim>\<open>tasks_mtx_\<close> and
  \<^verbatim>\<open>worker_mtx_\<close> are held for the length of one function of this model only and have no
  field.
\<close>

record 'c ThreadPool =
  tasks_m :: "'c list"
  workers_m :: "'c worker list"
  wait_mtx_m :: "nat option"
  on_complete_m :: bool
  on_complete_calls :: nat
  active_task_count_m :: "32 word"
  thread_count_m :: nat
  is_shutting_down_m :: bool

definition ThreadPool_new :: "nat \<Rightarrow> bool \<Rightarrow> 'c ThreadPool" where
  "ThreadPool_new thread_count on_complete_callback =
     \<lparr>tasks_m = [], workers_m = [], wait_mtx_m = None, on_complete_m = on_complete_callback,
      on_complete_calls = 0, active_task_count_m = 0, thread_count_m = thread_count,
      is_shutting_down_m = False\<rparr>"

text \<open>
  \<^verbatim>\<open>add_task\<close>: the null test, then, under \<^verbatim>\<open>worker_mtx_\<close> and \<^verbatim>\<open>tasks_mtx_\<close>,
  \<^verbatim>\<open>tasks_.emplace\<close> and \<^verbatim>\<open>fetch_add(1)\<close>. It does not lock \<^verbatim>\<open>wait_mtx_\<close>.
\<close>

definition add_task :: "'c callable \<Rightarrow> 'c ThreadPool \<Rightarrow> bool \<times> 'c ThreadPool" where
  "add_task fn p =
     (case (if is_null fn then None else closure_of fn) of
        None \<Rightarrow> (False, p)
      | Some f \<Rightarrow> (True, p\<lparr>tasks_m := tasks_m p @ [f],
                            active_task_count_m := active_task_count_m p + 1\<rparr>))"

text \<open>
  \<^verbatim>\<open>clear_queued_tasks\<close>, under \<^verbatim>\<open>tasks_mtx_\<close> alone: \<^verbatim>\<open>fetch_sub(tasks_.size())\<close>, the
  \<^verbatim>\<open>size_t\<close> converted to \<^verbatim>\<open>int\<close>, then the queue is replaced by an empty one when it was
  not empty.
\<close>

definition clear_queued_tasks :: "'c ThreadPool \<Rightarrow> 'c ThreadPool" where
  "clear_queued_tasks p =
     (let p1 = p\<lparr>active_task_count_m := active_task_count_m p - word_of_nat (length (tasks_m p))\<rparr>
      in if tasks_m p1 \<noteq> [] then p1\<lparr>tasks_m := []\<rparr> else p1)"

definition is_idle :: "'c ThreadPool \<Rightarrow> bool" where
  "is_idle p = (active_task_count_m p = 0)"

definition active_task_count :: "'c ThreadPool \<Rightarrow> int" where
  "active_task_count p = sint (active_task_count_m p)"

definition size_queued :: "'c ThreadPool \<Rightarrow> nat" where
  "size_queued p = length (tasks_m p)"

text \<open>\<^verbatim>\<open>ThreadPool::run\<close> spawns \<open>thread_count_m\<close> workers.\<close>

definition ThreadPool_run :: "'c ThreadPool \<Rightarrow> 'c ThreadPool" where
  "ThreadPool_run p = p\<lparr>workers_m := workers_m p @ replicate (thread_count_m p) NoTask\<rparr>"

text \<open>
  \<^verbatim>\<open>ThreadPool::wait\<close> locks \<^verbatim>\<open>wait_mtx_\<close> and returns once, holding it, it finds the
  counter zero.
\<close>

definition ThreadPool_wait :: "'c ThreadPool \<Rightarrow> unit option" where
  "ThreadPool_wait p = (if wait_mtx_m p = None \<and> is_idle p then Some () else None)"

text \<open>
  \<^verbatim>\<open>execute_task\<close>, the critical section under \<^verbatim>\<open>tasks_mtx_\<close>: worker \<open>w\<close> moves the front
  of the queue into its \<^verbatim>\<open>task_to_do\<close>, if there is one. With an empty \<^verbatim>\<open>task_to_do\<close> the
  function returns at once.
\<close>

definition execute_task_pop :: "nat \<Rightarrow> 'c ThreadPool \<Rightarrow> 'c ThreadPool" where
  "execute_task_pop w p =
     (if w < length (workers_m p) \<and> workers_m p ! w = NoTask \<and> tasks_m p \<noteq> []
      then p\<lparr>workers_m := (workers_m p)[w := Popped (hd (tasks_m p))], tasks_m := tl (tasks_m p)\<rparr>
      else p)"

text \<open>
  \<^verbatim>\<open>execute_task\<close>, the statement \<^verbatim>\<open>task_to_do()\<close>: what the closure does is not the pool's
  business; here the call returns.
\<close>

definition execute_task_call :: "nat \<Rightarrow> 'c ThreadPool \<Rightarrow> 'c ThreadPool" where
  "execute_task_call w p =
     (if w < length (workers_m p)
      then (case workers_m p ! w of
              Popped c \<Rightarrow> p\<lparr>workers_m := (workers_m p)[w := Returned c]\<rparr>
            | _ \<Rightarrow> p)
      else p)"

text \<open>
  \<^verbatim>\<open>execute_task\<close>, the statements \<^verbatim>\<open>std::unique_lock lck{wait_mtx_}\<close> and
  \<^verbatim>\<open>active_task_count_.fetch_sub(1)\<close>: the worker goes on when no other thread holds the
  mutex.
\<close>

definition execute_task_fetch_sub :: "nat \<Rightarrow> 'c ThreadPool \<Rightarrow> 'c ThreadPool" where
  "execute_task_fetch_sub w p =
     (if w < length (workers_m p) \<and> wait_mtx_m p = None
      then (case workers_m p ! w of
              Returned c \<Rightarrow>
                p\<lparr>wait_mtx_m := Some w, active_task_count_m := active_task_count_m p - 1,
                  workers_m := (workers_m p)[w := Decremented c]\<rparr>
            | _ \<Rightarrow> p)
      else p)"

text \<open>
  \<^verbatim>\<open>execute_task\<close>, the rest: \<^verbatim>\<open>count = active_task_count_.load()\<close>, and when \<open>count\<close> is
  zero the callback, if any, is invoked (and the waiters are notified); then the function
  returns, which unlocks \<^verbatim>\<open>wait_mtx_\<close> and destroys \<^verbatim>\<open>task_to_do\<close>. The worker is the one
  that holds the mutex. Between
  \<^verbatim>\<open>fetch_sub\<close> and \<^verbatim>\<open>load\<close> the other workers are kept out by the mutex, but
  \<^verbatim>\<open>add_task\<close> and \<^verbatim>\<open>clear_queued_tasks\<close> are not.
\<close>

definition execute_task_load :: "nat \<Rightarrow> 'c ThreadPool \<Rightarrow> 'c ThreadPool" where
  "execute_task_load w p =
     (if w < length (workers_m p) \<and> wait_mtx_m p = Some w
      then (case workers_m p ! w of
              Decremented c \<Rightarrow>
                (let count = active_task_count_m p;
                     p1 = (if count = 0
                           then (if on_complete_m p
                                 then p\<lparr>on_complete_calls := on_complete_calls p + 1\<rparr> else p)
                           else p)
                 in p1\<lparr>wait_mtx_m := None, workers_m := (workers_m p1)[w := NoTask]\<rparr>)
            | _ \<Rightarrow> p)
      else p)"

subsection \<open>Runs of the pool\<close>

text \<open>
  What the threads do to the pool, one step at a time: a caller submits, cancels or starts
  the workers; worker \<open>w\<close> takes a closure (\<open>Pop w\<close>), its call of the closure returns
  (\<open>Call w\<close>), it locks \<^verbatim>\<open>wait_mtx_\<close> and decrements the counter (\<open>FetchSub w\<close>), it loads the
  counter, invokes the callback or not, and leaves (\<open>Load w\<close>). A run is a list of such
  events, in the order in which they take effect.
\<close>

datatype 'c pool_event =
  AddTask "'c callable" | ClearQueued | Run | Pop nat | Call nat | FetchSub nat | Load nat

fun pool_step :: "'c pool_event \<Rightarrow> 'c ThreadPool \<Rightarrow> 'c ThreadPool" where
  "pool_step (AddTask fn) p = snd (add_task fn p)"
| "pool_step ClearQueued p = clear_queued_tasks p"
| "pool_step Run p = ThreadPool_run p"
| "pool_step (Pop w) p = execute_task_pop w p"
| "pool_step (Call w) p = execute_task_call w p"
| "pool_step (FetchSub w) p = execute_task_fetch_sub w p"
| "pool_step (Load w) p = execute_task_load w p"

definition pool_run :: "'c pool_event list \<Rightarrow> 'c ThreadPool \<Rightarrow> 'c ThreadPool" where
  "pool_run es p = fold pool_step es p"

fun is_fetch_sub :: "'c pool_event \<Rightarrow> bool" where
  "is_fetch_sub (FetchSub w) = True"
| "is_fetch_sub _ = False"



fun is_worker :: "'c pool_event \<Rightarrow> bool" where
  "is_worker (AddTask fn) = False"
| "is_worker ClearQueued = False"
| "is_worker _ = True"


text \<open>
  How often, along a run, an event selected by \<open>sel\<close> takes the counter from a positive
  value to zero.
\<close>

fun returns_to_zero ::
  "('c pool_event \<Rightarrow> bool) \<Rightarrow> 'c pool_event list \<Rightarrow> 'c ThreadPool \<Rightarrow> nat" where
  "returns_to_zero sel [] p = 0"
| "returns_to_zero sel (e # es) p =
     (if sel e \<and> 0 < active_task_count p \<and> active_task_count (pool_step e p) = 0
      then 1 else 0)
     + returns_to_zero sel es (pool_step e p)"


text \<open>
  The closures that workers have taken and not yet accounted for; a pool with nothing
  queued or taken, the counter zero and \<^verbatim>\<open>wait_mtx_\<close> free; the counter as the number of
  closures queued or taken; the mutex as held by the worker that has decremented.
\<close>

fun uncounted :: "'c worker \<Rightarrow> bool" where
  "uncounted (Popped c) = True"
| "uncounted (Returned c) = True"
| "uncounted _ = False"

fun decremented :: "'c worker \<Rightarrow> bool" where
  "decremented (Decremented c) = True"
| "decremented _ = False"

definition in_flight :: "'c ThreadPool \<Rightarrow> nat" where
  "in_flight p = length (filter uncounted (workers_m p))"

definition quiescent :: "'c ThreadPool \<Rightarrow> bool" where
  "quiescent p = (is_idle p \<and> tasks_m p = [] \<and> in_flight p = 0 \<and> wait_mtx_m p = None)"

definition balanced :: "'c ThreadPool \<Rightarrow> bool" where
  "balanced p = (unat (active_task_count_m p) = length (tasks_m p) + in_flight p)"

definition wait_mtx_held :: "'c ThreadPool \<Rightarrow> bool" where
  "wait_mtx_held p =
     (\<forall>w. wait_mtx_m p = Some w \<longleftrightarrow> w < length (workers_m p) \<and> decremented (workers_m p ! w))"

text \<open>The steps that a worker has still to take before it leaves \<^verbatim>\<open>execute_task\<close>.\<close>

fun steps_left :: "'c worker \<Rightarrow> nat" where
  "steps_left NoTask = 0"
| "steps_left (Popped c) = 3"
| "steps_left (Returned c) = 2"
| "steps_left (Decremented c) = 1"




subsection \<open>Node and Task\<close>

text \<open>
  \<^verbatim>\<open>Task<ReturnT, InputTs...>\<close> derives from \<^verbatim>\<open>Node<ReturnT, InputTs...>\<close> and \<^verbatim>\<open>ITask\<close>;
  the record holds the data members of the three (the name and the description, two
  strings, are left out). An input type is \<^verbatim>\<open>void\<close> or a value type \<open>T\<close>, given with its
  default-constructed value \<^verbatim>\<open>T()\<close>. The tuple \<^verbatim>\<open>in_edges_\<close> has one typed pointer for each
  input type: the slot's type and the pointer, \<open>None\<close> for \<^verbatim>\<open>nullptr\<close> and \<open>Some n\<close> for the
  address of an edge whose owner is the node at \<open>n\<close>. \<open>returns_void\<close> tells the
  specialisation \<^verbatim>\<open>Task<void, InputTs...>\<close>, which has no \<^verbatim>\<open>result_\<close>.
  \<open>reachability_m\<close> is the \<^verbatim>\<open>size_t reachability_\<close>, of 64 bits.
\<close>

datatype TaskState = Incomplete | Running | Complete

datatype 'v slot_type = VoidT | ValueT 'v

record 'v Task =
  in_edges_m :: "('v slot_type \<times> nat option) list"
  out_edge_m :: "'v Edge"
  reachability_m :: "64 word"
  state_m :: TaskState
  start_time_m :: nat
  end_time_m :: nat
  returns_void :: bool
  callable_m :: "'v list \<Rightarrow> 'v"
  result_m :: 'v

text \<open>The objects live in a heap, addressed by natural numbers.\<close>

type_synonym 'v heap = "nat \<Rightarrow> 'v Task"

text \<open>
  Construction: every inward pointer null, the outward edge owned by the node itself,
  state \<open>Incomplete\<close>.
\<close>

definition Task_new :: "nat \<Rightarrow> bool \<Rightarrow> 'v slot_type list \<Rightarrow> 'v \<Rightarrow> 'v Task" where
  "Task_new this rv tys init =
     \<lparr>in_edges_m = map (\<lambda>ty. (ty, None)) tys, out_edge_m = Edge_new this init,
      reachability_m = 0, state_m = Incomplete, start_time_m = 0, end_time_m = 0,
      returns_void = rv, callable_m = (\<lambda>args. init), result_m = init\<rparr>"

definition set_callable :: "('v list \<Rightarrow> 'v) \<Rightarrow> 'v Task \<Rightarrow> 'v Task" where
  "set_callable fn t = t\<lparr>callable_m := fn\<rparr>"

text \<open>\<^verbatim>\<open>add_inward_edge<Idx, InputT>(edge)\<close>: the pointer at index \<open>idx\<close> is replaced.\<close>

definition add_inward_edge :: "nat \<Rightarrow> nat option \<Rightarrow> 'v Task \<Rightarrow> 'v Task" where
  "add_inward_edge idx edge t =
     t\<lparr>in_edges_m := (in_edges_m t)[idx := (fst (in_edges_m t ! idx), edge)]\<rparr>"

definition get_inward_edges :: "'v Task \<Rightarrow> nat option list" where
  "get_inward_edges t = map snd (in_edges_m t)"

definition get_inward_edges_count :: "'v Task \<Rightarrow> nat" where
  "get_inward_edges_count t = length (in_edges_m t)"

text \<open>\<^verbatim>\<open>T()\<close>; \<^verbatim>\<open>void\<close> has no value.\<close>

fun default_constructed :: "'v slot_type \<Rightarrow> 'v" where
  "default_constructed (ValueT d) = d"

text \<open>
  \<^verbatim>\<open>get_inward_edge_value<Idx>\<close>: the data of the edge at index \<open>idx\<close>, or \<^verbatim>\<open>T()\<close> when the
  pointer is null.
\<close>

definition get_inward_edge_value :: "'v heap \<Rightarrow> 'v Task \<Rightarrow> nat \<Rightarrow> 'v" where
  "get_inward_edge_value h t idx =
     (case snd (in_edges_m t ! idx) of
        Some n \<Rightarrow> get_data (out_edge_m (h n))
      | None \<Rightarrow> default_constructed (fst (in_edges_m t ! idx)))"

text \<open>\<^verbatim>\<open>integer_sequence_void_filter<InputTs...>::filtered\<close>: the indices of the non-void types.\<close>

definition integer_sequence_void_filter :: "'v Task \<Rightarrow> nat list" where
  "integer_sequence_void_filter t =
     filter (\<lambda>i. fst (in_edges_m t ! i) \<noteq> VoidT) [0..<length (in_edges_m t)]"

text \<open>\<^verbatim>\<open>run_impl\<close>: the callable applied to the values of the non-void inputs, in order.\<close>

definition run_impl :: "'v heap \<Rightarrow> 'v Task \<Rightarrow> 'v" where
  "run_impl h t = callable_m t (map (get_inward_edge_value h t) (integer_sequence_void_filter t))"

definition set_out_edge_data :: "'v Task \<Rightarrow> 'v Task" where
  "set_out_edge_data t =
     (if returns_void t then t\<lparr>out_edge_m := set_data_void (out_edge_m t)\<rparr>
      else t\<lparr>out_edge_m := set_data (result_m t) (out_edge_m t)\<rparr>)"

definition get_result :: "'v Task \<Rightarrow> 'v" where
  "get_result t = result_m t"

text \<open>
  \<^verbatim>\<open>get_state\<close> as the thread that runs the task reads it: the value it has stored last.
\<close>

definition get_state :: "'v Task \<Rightarrow> TaskState" where
  "get_state t = state_m t"

subsection \<open>Task::run\<close>

text \<open>
  The statements of \<^verbatim>\<open>run()\<close>, in the order of the running thread, each a step on the heap.
  The two specialisations have the same statements; they differ in \<open>InvokeCallable\<close>
  (\<^verbatim>\<open>result_ = ...\<close> against a bare call) and in \<open>SetOutEdgeData\<close> (with or without data).
  The times are what the two calls of \<^verbatim>\<open>steady_clock::now()\<close> return. The heap holds the
  value that each member has after the statement; for the atomic members \<^verbatim>\<open>state_\<close> and
  \<^verbatim>\<open>is_retrievable_\<close> that is the last store in the member's modification order, and what
  another thread loads from them is the matter of the next subsection.
\<close>

datatype run_step =
  WaitUntilRetrievable nat | SetState TaskState | SetStartTime nat | InvokeCallable
  | SetEndTime nat | SetOutEdgeData | NotifyOne

text \<open>The loop over \<^verbatim>\<open>get_inward_edges()\<close>: one wait for each pointer that is not null.\<close>

definition wait_steps :: "nat option list \<Rightarrow> run_step list" where
  "wait_steps es =
     concat (map (\<lambda>edge. case edge of None \<Rightarrow> [] | Some n \<Rightarrow> [WaitUntilRetrievable n]) es)"

definition Task_run_steps :: "nat \<Rightarrow> nat \<Rightarrow> 'v Task \<Rightarrow> run_step list" where
  "Task_run_steps now1 now2 t =
     wait_steps (get_inward_edges t)
     @ [SetState Running, SetStartTime now1, InvokeCallable, SetEndTime now2,
        SetOutEdgeData, SetState Complete, NotifyOne]"

fun exec_step :: "nat \<Rightarrow> run_step \<Rightarrow> 'v heap \<Rightarrow> 'v heap option" where
  "exec_step this (WaitUntilRetrievable n) h =
     (case wait_until_retrievable (out_edge_m (h n)) of None \<Rightarrow> None | Some u \<Rightarrow> Some h)"
| "exec_step this (SetState s) h = Some (h(this := (h this)\<lparr>state_m := s\<rparr>))"
| "exec_step this (SetStartTime now) h = Some (h(this := (h this)\<lparr>start_time_m := now\<rparr>))"
| "exec_step this InvokeCallable h =
     Some (if returns_void (h this) then h
           else h(this := (h this)\<lparr>result_m := run_impl h (h this)\<rparr>))"
| "exec_step this (SetEndTime now) h = Some (h(this := (h this)\<lparr>end_time_m := now\<rparr>))"
| "exec_step this SetOutEdgeData h = Some (h(this := set_out_edge_data (h this)))"
| "exec_step this NotifyOne h = Some h"

fun exec_steps :: "nat \<Rightarrow> run_step list \<Rightarrow> 'v heap \<Rightarrow> 'v heap option" where
  "exec_steps this [] h = Some h"
| "exec_steps this (s # ss) h =
     (case exec_step this s h of None \<Rightarrow> None | Some h' \<Rightarrow> exec_steps this ss h')"

text \<open>A whole call of \<^verbatim>\<open>run()\<close>; \<open>None\<close> when it stays blocked on an inward edge.\<close>

definition Task_run :: "nat \<Rightarrow> nat \<Rightarrow> nat \<Rightarrow> 'v heap \<Rightarrow> 'v heap option" where
  "Task_run this now1 now2 h = exec_steps this (Task_run_steps now1 now2 (h this)) h"

text \<open>
  The configurations that a call of \<^verbatim>\<open>run()\<close> on the task at \<open>this\<close> goes through: the heap
  and the statements still to execute. Between two statements the other threads may
  change any other object; they never write to this task (they read its outward edge
  through a pointer to const).
\<close>

inductive run_reach ::
  "nat \<Rightarrow> 'v heap \<times> run_step list \<Rightarrow> 'v heap \<times> run_step list \<Rightarrow> bool" for this c where
  start: "run_reach this c c"
| step: "run_reach this c (h, s # rest) \<Longrightarrow> exec_step this s h = Some h'
         \<Longrightarrow> run_reach this c (h', rest)"
| others: "run_reach this c (h, rest) \<Longrightarrow> h' this = h this \<Longrightarrow> run_reach this c (h', rest)"

subsection \<open>The atomic members as another thread reads them\<close>

text \<open>
  \<^verbatim>\<open>set_state\<close> stores \<^verbatim>\<open>state_\<close> with \<^verbatim>\<open>memory_order_relaxed\<close> and \<^verbatim>\<open>get_state\<close> loads it
  with \<^verbatim>\<open>memory_order_relaxed\<close>; \<^verbatim>\<open>set_as_retrievable\<close> stores \<^verbatim>\<open>is_retrievable_\<close> with
  \<^verbatim>\<open>memory_order_release\<close> and \<^verbatim>\<open>is_retrievable\<close> loads it with \<^verbatim>\<open>memory_order_acquire\<close>.
  The heap above holds, for each member, the value stored last, which is what the running
  thread itself reads. What another thread reads is decided by the memory orders. An
  atomic object keeps the values stored to it, oldest first (its modification order);
  both members of a task have one writer, the thread that runs the task. A thread knows,
  for each of the two objects, a position in that list (its view) and a load may read any
  store from that position on, after which the thread knows the store it has read. A
  release store carries the view of the storing thread, and an acquire load that reads it
  adds that view to the reader's; a relaxed store carries nothing and a relaxed load
  learns nothing about the other object.
\<close>

datatype memory_order = memory_order_relaxed | memory_order_acquire | memory_order_release

type_synonym view = "nat \<times> nat"

type_synonym 'a atomic = "('a \<times> view) list"

definition join :: "view \<Rightarrow> view \<Rightarrow> view" where
  "join v v' = (max (fst v) (fst v'), max (snd v) (snd v'))"

definition atomic_store :: "'a \<Rightarrow> memory_order \<Rightarrow> view \<Rightarrow> 'a atomic \<Rightarrow> 'a atomic" where
  "atomic_store x order writer a =
     a @ [(x, if order = memory_order_release then writer else (0, 0))]"

text \<open>\<open>i\<close> is the store that the load reads, \<open>seen\<close> the position the reader knows.\<close>

definition atomic_load :: "nat \<Rightarrow> memory_order \<Rightarrow> nat \<Rightarrow> 'a atomic \<Rightarrow> ('a \<times> view) option" where
  "atomic_load i order seen a =
     (if seen \<le> i \<and> i < length a
      then Some (fst (a ! i), if order = memory_order_acquire then snd (a ! i) else (0, 0))
      else None)"

text \<open>
  The two atomic members of one task: \<^verbatim>\<open>state_\<close> and the \<^verbatim>\<open>is_retrievable_\<close> of its outward
  edge. A view is a position in the first and a position in the second.
\<close>

record atomics =
  state_a :: "TaskState atomic"
  is_retrievable_a :: "bool atomic"

definition atomics_of :: "'v Task \<Rightarrow> atomics" where
  "atomics_of t =
     \<lparr>state_a = [(state_m t, (0, 0))],
      is_retrievable_a = [(is_retrievable_m (out_edge_m t), (0, 0))]\<rparr>"

definition writer_view :: "atomics \<Rightarrow> view" where
  "writer_view A = (length (state_a A) - 1, length (is_retrievable_a A) - 1)"

text \<open>
  The stores of a statement of \<^verbatim>\<open>run()\<close>: \<^verbatim>\<open>set_state\<close> is the relaxed store, and
  \<^verbatim>\<open>set_out_edge_data\<close> ends in the release store of \<^verbatim>\<open>set_as_retrievable\<close>, which carries
  the stores to \<^verbatim>\<open>state_\<close> made so far.
\<close>

fun run_stores :: "run_step \<Rightarrow> atomics \<Rightarrow> atomics" where
  "run_stores (SetState s) A =
     A\<lparr>state_a := atomic_store s memory_order_relaxed
                    (length (state_a A), length (is_retrievable_a A) - 1) (state_a A)\<rparr>"
| "run_stores SetOutEdgeData A =
     A\<lparr>is_retrievable_a := atomic_store True memory_order_release
                    (length (state_a A) - 1, length (is_retrievable_a A)) (is_retrievable_a A)\<rparr>"
| "run_stores _ A = A"

text \<open>
  The loads of another thread with view \<open>v\<close>: \<^verbatim>\<open>get_state()\<close> reading the store at \<open>i\<close> and
  \<^verbatim>\<open>is_retrievable()\<close> reading the store at \<open>j\<close>, each with the value read and the view
  afterwards; \<open>None\<close> when the thread cannot read that store. A thread that synchronises
  with the running thread (it acquires what that thread has released after its stores, as
  the caller of the pool's \<^verbatim>\<open>wait()\<close> does through the counter) knows all of them.
\<close>

definition observe_get_state :: "nat \<Rightarrow> view \<Rightarrow> atomics \<Rightarrow> (TaskState \<times> view) option" where
  "observe_get_state i v A =
     (case atomic_load i memory_order_relaxed (fst v) (state_a A) of
        None \<Rightarrow> None
      | Some (s, acquired) \<Rightarrow> Some (s, join (i, snd v) acquired))"

definition observe_is_retrievable :: "nat \<Rightarrow> view \<Rightarrow> atomics \<Rightarrow> (bool \<times> view) option" where
  "observe_is_retrievable j v A =
     (case atomic_load j memory_order_acquire (snd v) (is_retrievable_a A) of
        None \<Rightarrow> None
      | Some (b, acquired) \<Rightarrow> Some (b, join (fst v, j) acquired))"

definition synchronise :: "atomics \<Rightarrow> view \<Rightarrow> view" where
  "synchronise A v = join v (writer_view A)"

subsection \<open>Scenario S2: a chain of five tasks\<close>

text \<open>
  \<^verbatim>\<open>Task<int> t0\<close> returns 1; \<^verbatim>\<open>Task<int, int> t1 .. t4\<close> return their input plus one, and
  the inward edge of each is the outward edge of its predecessor. The tasks are at the
  addresses 0 to 4.
\<close>

definition S2_task :: "nat \<Rightarrow> int Task" where
  "S2_task i =
     (if i = 0 then set_callable (\<lambda>args. 1) (Task_new 0 False [] 0)
      else add_inward_edge 0 (Some (i - 1))
             (set_callable (\<lambda>args. hd args + 1) (Task_new i False [ValueT 0] 0)))"

definition S2_heap :: "int heap" where
  "S2_heap = (\<lambda>n. Task_new n False [] 0)
     (0 := S2_task 0, 1 := S2_task 1, 2 := S2_task 2, 3 := S2_task 3, 4 := S2_task 4)"

subsection \<open>A whole run in one step\<close>

text \<open>
  \<open>ready\<close>: every inward edge that is attached has been latched, so that no wait of
  \<^verbatim>\<open>run()\<close> blocks. \<open>completed\<close>: the task as \<^verbatim>\<open>run()\<close> leaves it, statement by statement.
\<close>

definition ready :: "'v heap \<Rightarrow> 'v Task \<Rightarrow> bool" where
  "ready h t = (\<forall>n. Some n \<in> set (get_inward_edges t) \<longrightarrow> is_retrievable (out_edge_m (h n)))"

definition completed :: "nat \<Rightarrow> nat \<Rightarrow> 'v heap \<Rightarrow> 'v Task \<Rightarrow> 'v Task" where
  "completed now1 now2 h t =
     (let t1 = t\<lparr>state_m := Running\<rparr>;
          t2 = t1\<lparr>start_time_m := now1\<rparr>;
          t3 = (if returns_void t2 then t2 else t2\<lparr>result_m := run_impl h t\<rparr>);
          t4 = t3\<lparr>end_time_m := now2\<rparr>;
          t5 = set_out_edge_data t4
      in t5\<lparr>state_m := Complete\<rparr>)"

text \<open>
  A \<^verbatim>\<open>Task<int, int>\<close> at address 7 whose input slot has no edge, and a node at address 3
  whose outward edge holds 0.
\<close>

definition null_slot_heap :: "int heap" where
  "null_slot_heap = (\<lambda>n. Task_new n False [] 0)
     (3 := (Task_new 3 False [] 0)\<lparr>out_edge_m := set_data 0 (Edge_new 3 0)\<rparr>,
      7 := set_callable (\<lambda>args. hd args + 1) (Task_new 7 False [ValueT 0] 0))"

subsection \<open>Reachability\<close>

text \<open>
  \<^verbatim>\<open>Node<OutwardT>\<close>, the specialisation for no input types, has no \<^verbatim>\<open>reachability_\<close> and
  its \<^verbatim>\<open>get_reachability\<close> returns 0; the primary template returns the member.
\<close>

definition get_reachability :: "'v Task \<Rightarrow> 64 word" where
  "get_reachability t = (if in_edges_m t = [] then 0 else reachability_m t)"

text \<open>
  \<^verbatim>\<open>*std::max_element\<close> over \<^verbatim>\<open>std::array<int, N> inward_reachabilities\<close>, which has at
  least one element in the primary template: the first of the greatest elements in the
  signed order of \<^verbatim>\<open>int\<close>, found by replacing the candidate whenever it is less than the
  next element.
\<close>

fun max_element :: "32 word list \<Rightarrow> 32 word" where
  "max_element (x # xs) = fold (\<lambda>y largest. if largest <s y then y else largest) xs x"

text \<open>
  The loop over the inward edges in \<^verbatim>\<open>set_reachability(TraverseMarkerT&)\<close>: a null edge
  contributes 0, an edge makes its owner compute its reachability (\<open>visit\<close>) and
  contributes the owner's \<^verbatim>\<open>get_reachability()\<close>, read right after the call. The value
  is a \<^verbatim>\<open>size_t\<close> and the assignment to the array element narrows it to \<^verbatim>\<open>int\<close>, keeping
  the low 32 bits. The state is the heap and the marker set.
\<close>

fun inward_loop ::
  "(nat \<Rightarrow> 'v heap \<times> nat set \<Rightarrow> ('v heap \<times> nat set) option) \<Rightarrow> nat option list
   \<Rightarrow> 'v heap \<times> nat set \<Rightarrow> (('v heap \<times> nat set) \<times> 32 word list) option" where
  "inward_loop visit [] s = Some (s, [])"
| "inward_loop visit (None # es) s =
     (case inward_loop visit es s of None \<Rightarrow> None | Some (s', rs) \<Rightarrow> Some (s', 0 # rs))"
| "inward_loop visit (Some p # es) s =
     (case visit p s of
        None \<Rightarrow> None
      | Some s1 \<Rightarrow>
          (case inward_loop visit es s1 of
             None \<Rightarrow> None
           | Some (s2, rs) \<Rightarrow> Some (s2, ucast (get_reachability (fst s1 p)) # rs)))"

text \<open>
  \<^verbatim>\<open>set_reachability(traverse_marker)\<close>. The recursion follows the graph, so it is bounded
  by \<open>fuel\<close>, the depth of recursion the stack allows; \<open>None\<close> is a run that exceeds it.
  A marked node returns at once; the specialisation without inputs only marks itself.
  The sum \<^verbatim>\<open>*std::max_element(...) + 1\<close> is an \<^verbatim>\<open>int\<close> (its overflow is written as
  wrap-around) and the assignment to \<^verbatim>\<open>reachability_\<close> converts it to \<^verbatim>\<open>size_t\<close>,
  extending the sign.
\<close>

primrec set_reachability ::
  "nat \<Rightarrow> nat \<Rightarrow> 'v heap \<times> nat set \<Rightarrow> ('v heap \<times> nat set) option" where
  "set_reachability 0 this s = None"
| "set_reachability (Suc fuel) this s =
     (if this \<in> snd s then Some s
      else if in_edges_m (fst s this) = [] then Some (fst s, insert this (snd s))
      else (case inward_loop (set_reachability fuel) (get_inward_edges (fst s this))
                   (fst s, insert this (snd s)) of
              None \<Rightarrow> None
            | Some (s', inward_reachabilities) \<Rightarrow>
                Some ((fst s')(this := (fst s' this)
                         \<lparr>reachability_m := scast (max_element inward_reachabilities + 1)\<rparr>),
                      snd s')))"

text \<open>\<^verbatim>\<open>compute_reachability\<close> (Helper.h): a fresh marker, and every task that is not null.\<close>

fun compute_loop ::
  "nat \<Rightarrow> nat option list \<Rightarrow> 'v heap \<times> nat set \<Rightarrow> ('v heap \<times> nat set) option" where
  "compute_loop fuel [] s = Some s"
| "compute_loop fuel (None # tasks) s = compute_loop fuel tasks s"
| "compute_loop fuel (Some task # tasks) s =
     (case set_reachability fuel task s of
        None \<Rightarrow> None
      | Some s' \<Rightarrow> compute_loop fuel tasks s')"

definition compute_reachability :: "nat \<Rightarrow> nat option list \<Rightarrow> 'v heap \<Rightarrow> 'v heap option" where
  "compute_reachability fuel tasks h = map_option fst (compute_loop fuel tasks (h, {}))"

subsection \<open>Graphs, depth and the invariants of the pass\<close>

text \<open>
  The graph of a heap gives each node its inward pointers. \<open>code_depth\<close> is the value
  that the pass assigns: 0 to a node without input slots, else one more than the
  greatest value of its slots, where a null slot counts 0, in the arithmetic of the
  pass. \<open>anc g S\<close> are the nodes of \<open>S\<close> and their producers, transitively. A graph is a
  DAG on the node set \<open>N\<close> when some rank decreases along every edge.
\<close>

definition graph_of :: "'v heap \<Rightarrow> nat \<Rightarrow> nat option list" where
  "graph_of h n = get_inward_edges (h n)"

inductive code_depth :: "(nat \<Rightarrow> nat option list) \<Rightarrow> nat \<Rightarrow> 64 word \<Rightarrow> bool" for g where
  root: "g n = [] \<Longrightarrow> code_depth g n 0"
| inner: "g n \<noteq> [] \<Longrightarrow>
          list_all2 (\<lambda>e k. (e = None \<longrightarrow> k = 0) \<and> (\<forall>p. e = Some p \<longrightarrow> code_depth g p k))
            (g n) ks
          \<Longrightarrow> code_depth g n (scast (max_element (map ucast ks) + 1))"

inductive_set anc :: "(nat \<Rightarrow> nat option list) \<Rightarrow> nat set \<Rightarrow> nat set" for g S where
  base: "n \<in> S \<Longrightarrow> n \<in> anc g S"
| step: "n \<in> anc g S \<Longrightarrow> Some p \<in> set (g n) \<Longrightarrow> p \<in> anc g S"

definition dag :: "nat set \<Rightarrow> (nat \<Rightarrow> nat option list) \<Rightarrow> (nat \<Rightarrow> nat) \<Rightarrow> bool" where
  "dag N g rk = (\<forall>n\<in>N. \<forall>p. Some p \<in> set (g n) \<longrightarrow> p \<in> N \<and> rk p < rk n)"

definition Good ::
  "(nat \<Rightarrow> nat option list) \<Rightarrow> (nat \<Rightarrow> nat) \<Rightarrow> 'v heap \<Rightarrow> nat set \<Rightarrow> nat \<Rightarrow> bool" where
  "Good g rk h m b =
     (\<forall>x\<in>m. rk x < b \<longrightarrow>
        code_depth g x (get_reachability (h x)) \<and> (\<forall>p. Some p \<in> set (g x) \<longrightarrow> p \<in> m))"

definition only_reach :: "'v heap \<Rightarrow> 'v heap \<Rightarrow> bool" where
  "only_reach h h' = (\<forall>x. h' x = (h x)\<lparr>reachability_m := reachability_m (h' x)\<rparr>)"

definition Post ::
  "(nat \<Rightarrow> nat option list) \<Rightarrow> (nat \<Rightarrow> nat) \<Rightarrow> nat set \<Rightarrow> nat \<Rightarrow> nat
   \<Rightarrow> 'v heap \<times> nat set \<Rightarrow> 'v heap \<times> nat set \<Rightarrow> bool" where
  "Post g rk S c b s s' =
     (only_reach (fst s) (fst s') \<and> snd s \<subseteq> snd s'
      \<and> (\<forall>x \<in> snd s' - snd s. x \<in> anc g S \<and> rk x < c)
      \<and> (\<forall>x. x \<notin> snd s' - snd s \<longrightarrow> fst s' x = fst s x)
      \<and> Good g rk (fst s') (snd s') b)"

definition visit_ok ::
  "nat set \<Rightarrow> (nat \<Rightarrow> nat option list) \<Rightarrow> (nat \<Rightarrow> nat) \<Rightarrow> nat
   \<Rightarrow> (nat \<Rightarrow> 'v heap \<times> nat set \<Rightarrow> ('v heap \<times> nat set) option) \<Rightarrow> bool" where
  "visit_ok N g rk c visit =
     (\<forall>p h m. p \<in> N \<and> rk p < c \<and> graph_of h = g \<and> Good g rk h m c \<longrightarrow>
        (\<exists>s'. visit p (h, m) = Some s' \<and> p \<in> snd s' \<and> Post g rk {p} (Suc (rk p)) c (h, m) s'))"

text \<open>
  The producers of a node are the owners of its inward edges; a node without producers
  has no dependencies.
\<close>

definition producers :: "'v Task \<Rightarrow> nat list" where
  "producers t = concat (map (\<lambda>edge. case edge of None \<Rightarrow> [] | Some p \<Rightarrow> [p]) (get_inward_edges t))"

text \<open>
  The depth in the words of the specification: \<open>d\<close> is 0 where a node has no producers
  and else one more than the greatest \<open>d\<close> of a producer. In a node set with all slots
  attached every input slot of every node has the edge of a node of the set.
\<close>

definition is_spec_depth :: "nat set \<Rightarrow> 'v heap \<Rightarrow> (nat \<Rightarrow> nat) \<Rightarrow> bool" where
  "is_spec_depth N h d =
     (\<forall>n\<in>N. d n = (if producers (h n) = [] then 0 else 1 + Max (d ` set (producers (h n)))))"

definition all_slots_attached :: "nat set \<Rightarrow> 'v heap \<Rightarrow> bool" where
  "all_slots_attached N h = (\<forall>n\<in>N. \<forall>e \<in> set (get_inward_edges (h n)). \<exists>p\<in>N. e = Some p)"


subsection \<open>ThreadPoolExecutor\<close>

text \<open>
  The executor owns the pool (\<open>None\<close> until \<^verbatim>\<open>run()\<close> creates it) and the vector of task
  pointers. The closures it submits are \<^verbatim>\<open>[task]() { task->run(); }\<close>: a closure is the
  address of its task.
\<close>

record ThreadPoolExecutor =
  pool_m :: "nat ThreadPool option"
  tasks_to_run_m :: "nat list"

definition ThreadPoolExecutor_new :: ThreadPoolExecutor where
  "ThreadPoolExecutor_new = \<lparr>pool_m = None, tasks_to_run_m = []\<rparr>"

definition Executor_add_task :: "nat \<Rightarrow> ThreadPoolExecutor \<Rightarrow> ThreadPoolExecutor" where
  "Executor_add_task task ex = ex\<lparr>tasks_to_run_m := tasks_to_run_m ex @ [task]\<rparr>"

text \<open>
  \<^verbatim>\<open>std::sort\<close> with the comparator \<^verbatim>\<open>*a < *b\<close>, which compares reachabilities: the
  result is a permutation in which no element is less than an earlier one. The order
  of equal elements is not determined, so the result is a relation.
\<close>

definition task_less :: "'v heap \<Rightarrow> nat \<Rightarrow> nat \<Rightarrow> bool" where
  "task_less h a b = (get_reachability (h a) < get_reachability (h b))"

definition std_sort_result :: "'v heap \<Rightarrow> nat list \<Rightarrow> nat list \<Rightarrow> bool" where
  "std_sort_result h ts ts' =
     (mset ts' = mset ts \<and> sorted_wrt (\<lambda>a b. \<not> task_less h b a) ts')"

text \<open>The loop that submits one \<^verbatim>\<open>std::function\<close> for each task, in the sorted order.\<close>

definition submit_all :: "nat list \<Rightarrow> nat ThreadPool \<Rightarrow> nat ThreadPool" where
  "submit_all ts p = fold (\<lambda>task q. snd (add_task (StdFunction (Some task)) q)) ts p"

text \<open>
  \<^verbatim>\<open>ThreadPoolExecutor::run\<close>: the pool is created with \<^verbatim>\<open>hardware_concurrency()\<close> threads
  if there is none, the reachabilities are computed (the pass returns, within some bound
  of recursion), the tasks are sorted and submitted, and the workers are started.
\<close>

inductive ThreadPoolExecutor_run ::
  "nat \<Rightarrow> ThreadPoolExecutor \<times> 'v heap \<Rightarrow> ThreadPoolExecutor \<times> 'v heap \<Rightarrow> bool" where
  "pool = (case pool_m ex of None \<Rightarrow> ThreadPool_new hardware_concurrency False | Some p \<Rightarrow> p)
   \<Longrightarrow> compute_reachability fuel (map Some (tasks_to_run_m ex)) h = Some h'
   \<Longrightarrow> std_sort_result h' (tasks_to_run_m ex) sorted_tasks
   \<Longrightarrow> ThreadPoolExecutor_run hardware_concurrency (ex, h)
         (ex\<lparr>pool_m := Some (ThreadPool_run (submit_all sorted_tasks pool)),
             tasks_to_run_m := sorted_tasks\<rparr>, h')"

definition ThreadPoolExecutor_wait :: "ThreadPoolExecutor \<Rightarrow> unit option" where
  "ThreadPoolExecutor_wait ex = (case pool_m ex of None \<Rightarrow> Some () | Some p \<Rightarrow> ThreadPool_wait p)"

definition ThreadPoolExecutor_cancel :: "ThreadPoolExecutor \<Rightarrow> ThreadPoolExecutor" where
  "ThreadPoolExecutor_cancel ex =
     (case pool_m ex of None \<Rightarrow> ex | Some p \<Rightarrow> ex\<lparr>pool_m := Some (clear_queued_tasks p)\<rparr>)"

text \<open>
  What the workers do once started, in any interleaving: a worker without a closure
  takes the front of the queue; a worker whose task can run, its inward edges being
  latched, runs it to the end; a worker whose task has returned locks \<^verbatim>\<open>wait_mtx_\<close>, when
  it is free, and decrements the counter; a worker that has decremented loads the counter
  and leaves.
\<close>

inductive worker_step ::
  "nat ThreadPool \<times> 'v heap \<Rightarrow> nat ThreadPool \<times> 'v heap \<Rightarrow> bool" where
  pop: "w < length (workers_m p) \<Longrightarrow> workers_m p ! w = NoTask \<Longrightarrow> tasks_m p \<noteq> []
        \<Longrightarrow> worker_step (p, h) (execute_task_pop w p, h)"
| call: "w < length (workers_m p) \<Longrightarrow> workers_m p ! w = Popped task
        \<Longrightarrow> Task_run task now1 now2 h = Some h'
        \<Longrightarrow> worker_step (p, h) (execute_task_call w p, h')"
| fetch_sub: "w < length (workers_m p) \<Longrightarrow> workers_m p ! w = Returned task
        \<Longrightarrow> wait_mtx_m p = None
        \<Longrightarrow> worker_step (p, h) (execute_task_fetch_sub w p, h)"
| load: "w < length (workers_m p) \<Longrightarrow> workers_m p ! w = Decremented task
        \<Longrightarrow> wait_mtx_m p = Some w
        \<Longrightarrow> worker_step (p, h) (execute_task_load w p, h)"

text \<open>
  Scenario S2: the five tasks are submitted, each once, in any order. The invariant of
  its execution: the queue is a rest of the sorted tasks, the tasks taken from it are
  still to be run by the worker that took them or have latched their outward edge,
  nothing but reachabilities, states, times, results and outward edges has changed, and a
  latched edge of task \<open>n\<close> holds \<open>n + 1\<close>.
\<close>

definition S2_submitted :: "nat list \<Rightarrow> bool" where
  "S2_submitted ts = (distinct ts \<and> set ts = {0, 1, 2, 3, 4})"

definition S2_struct :: "int heap \<Rightarrow> int heap \<Rightarrow> bool" where
  "S2_struct h1 h =
     (\<forall>n. in_edges_m (h n) = in_edges_m (S2_heap n)
          \<and> callable_m (h n) = callable_m (S2_heap n)
          \<and> returns_void (h n) = returns_void (S2_heap n)
          \<and> reachability_m (h n) = reachability_m (h1 n))"

definition S2_vals :: "int heap \<Rightarrow> bool" where
  "S2_vals h =
     (\<forall>n<5. is_retrievable (out_edge_m (h n)) \<longrightarrow>
        get_data (out_edge_m (h n)) = int n + 1 \<and> get_result (h n) = int n + 1)"

definition S2_inv :: "int heap \<Rightarrow> nat ThreadPool \<times> int heap \<Rightarrow> bool" where
  "S2_inv h1 s =
     (balanced (fst s) \<and> wait_mtx_held (fst s)
      \<and> (\<exists>k\<le>5. tasks_m (fst s) = drop k [0, 1, 2, 3, 4]
             \<and> (\<forall>t. Popped t \<in> set (workers_m (fst s)) \<longrightarrow> t < k)
             \<and> (\<forall>n<k. is_retrievable (out_edge_m (snd s n))
                       \<or> Popped n \<in> set (workers_m (fst s))))
      \<and> S2_struct h1 (snd s) \<and> S2_vals (snd s))"

section \<open>Properties\<close>

subsection \<open>The edge's value slot\<close>

lemma set_data_fields:
  "data_m (set_data d e) = d" "is_retrievable_m (set_data d e) = True"
  "owner_m (set_data d e) = owner_m e"
  by (simp_all add: set_data_def set_as_retrievable_def)

lemma fold_set_data_latched:
  "is_retrievable_m (fold set_data vs e) = (vs \<noteq> [] \<or> is_retrievable_m e)"
  by (induction vs arbitrary: e) (simp_all add: set_data_fields)

lemma fold_set_data_value:
  "vs \<noteq> [] \<Longrightarrow> data_m (fold set_data vs e) = last vs"
  by (induction vs arbitrary: e) (auto simp: set_data_fields)

text \<open>
  Claim C5, as stated, fails: after \<^verbatim>\<open>set_data(100)\<close> the edge is retrievable and reads
  100, and a second \<^verbatim>\<open>set_data(200)\<close> overwrites the slot, so the next read is 200.
\<close>

theorem C5_second_set_data_overwrites:
  "is_retrievable (set_data 100 (Edge_new 0 (0::int)))
   \<and> get_data (set_data 100 (Edge_new 0 (0::int))) = 100
   \<and> get_data (set_data 200 (set_data 100 (Edge_new 0 (0::int)))) \<noteq> 100"
  by (simp add: is_retrievable_def get_data_def set_data_def set_as_retrievable_def Edge_new_def)

text \<open>
  Claim C5, amended: the latch is monotone (once \<^verbatim>\<open>set_data\<close> has been called the edge is
  retrievable and stays so under every later \<^verbatim>\<open>set_data\<close>), the owner never changes, and
  \<^verbatim>\<open>get_data\<close> returns the value of the most recent \<^verbatim>\<open>set_data\<close>: a later call overwrites
  the earlier value.
\<close>

theorem C5_latch_monotone_last_write_read:
  assumes "vs \<noteq> []"
  shows "is_retrievable (fold set_data vs e)
         \<and> get_data (fold set_data vs e) = last vs
         \<and> get_owner (fold set_data vs e) = get_owner e
         \<and> (is_retrievable e \<longrightarrow> is_retrievable (set_data v e))"
proof -
  have "owner_m (fold set_data ws x) = owner_m x" for ws and x :: "'a Edge"
    by (induction ws arbitrary: x) (simp_all add: set_data_fields)
  with assms show ?thesis
    by (simp add: is_retrievable_def get_data_def get_owner_def fold_set_data_latched
        fold_set_data_value set_data_fields)
qed

theorem C5_latch_monotone_last_write_read_witness:
  "is_retrievable (fold set_data [100, 200] (Edge_new 7 (0::int)))
   \<and> get_data (fold set_data [100, 200] (Edge_new 7 (0::int))) = 200
   \<and> get_owner (fold set_data [100, 200] (Edge_new 7 (0::int))) = 7"
  using C5_latch_monotone_last_write_read [of "[100, 200]" "Edge_new 7 (0::int)"]
  by (simp add: get_owner_def Edge_new_def)

subsection \<open>Submitting to the pool\<close>

lemma sint_succ32: "sint (c :: 32 word) < 2147483647 \<Longrightarrow> sint (c + 1) = sint c + 1"
proof -
  assume a: "sint c < 2147483647"
  have "- (2 ^ 31) \<le> sint c" using sint_ge [of c] by simp
  with a show ?thesis by (simp add: sint_word_ariths signed_take_bit_int_eq_self)
qed

lemma sint_sub_nat32:
  assumes "int n \<le> sint (c :: 32 word)"
  shows "sint (c - word_of_nat n) = sint c - int n"
proof -
  have c: "sint c < 2 ^ 31" "- (2 ^ 31) \<le> sint c"
    using sint_lt [of c] sint_ge [of c] by simp_all
  have "word_of_nat n = (word_of_int (int n) :: 32 word)" by simp
  then have n: "sint (word_of_nat n :: 32 word) = int n"
    using assms c by (simp only: sint_sbintrunc') (simp add: signed_take_bit_int_eq_self)
  show ?thesis
    using assms c by (simp add: sint_word_ariths n signed_take_bit_int_eq_self)
qed

lemma add_task_null: "is_null fn \<Longrightarrow> add_task fn p = (False, p)"
  by (simp add: add_task_def)

lemma add_task_accept:
  "\<not> is_null fn \<Longrightarrow>
   \<exists>f. closure_of fn = Some f
     \<and> add_task fn p = (True, p\<lparr>tasks_m := tasks_m p @ [f],
                                  active_task_count_m := active_task_count_m p + 1\<rparr>)"
  by (cases fn rule: is_null.cases) (auto simp: add_task_def)

text \<open>
  Claim C6: a null function pointer or an empty \<^verbatim>\<open>std::function\<close> is rejected with
  \<open>False\<close> and the pool is left as it was (queue and counter included); any other
  callable is accepted with \<open>True\<close>, its closure goes to the back of the queue, the
  counter is incremented by one (in the counter's 32-bit arithmetic, and as a signed
  number whenever it is below \<^verbatim>\<open>INT_MAX\<close>) and no other member changes.
\<close>

theorem C6_add_task_rejects_null_else_enqueues:
  "(is_null fn \<longrightarrow> add_task fn p = (False, p))
   \<and> (\<not> is_null fn \<longrightarrow>
        (\<exists>f. closure_of fn = Some f
           \<and> fst (add_task fn p) = True
           \<and> tasks_m (snd (add_task fn p)) = tasks_m p @ [f]
           \<and> active_task_count_m (snd (add_task fn p)) = active_task_count_m p + 1
           \<and> (active_task_count p < 2147483647 \<longrightarrow>
                active_task_count (snd (add_task fn p)) = active_task_count p + 1)
           \<and> snd (add_task fn p)
               = p\<lparr>tasks_m := tasks_m p @ [f],
                    active_task_count_m := active_task_count_m p + 1\<rparr>))"
proof (cases "is_null fn")
  case True
  then show ?thesis by (simp add: add_task_null)
next
  case False
  from add_task_accept [OF False, of p] obtain f where
    f: "closure_of fn = Some f"
       "add_task fn p = (True, p\<lparr>tasks_m := tasks_m p @ [f],
                                  active_task_count_m := active_task_count_m p + 1\<rparr>)"
    by blast
  show ?thesis
    using False f by (simp add: active_task_count_def sint_succ32)
qed

theorem C6_add_task_rejects_null_else_enqueues_witness:
  "add_task (FnPtr None) (ThreadPool_new 2 False :: nat ThreadPool)
     = (False, ThreadPool_new 2 False)
   \<and> add_task (StdFunction None) (ThreadPool_new 2 False :: nat ThreadPool)
     = (False, ThreadPool_new 2 False)
   \<and> fst (add_task (StdFunction (Some 5)) (ThreadPool_new 2 False :: nat ThreadPool)) = True
   \<and> tasks_m (snd (add_task (StdFunction (Some 5)) (ThreadPool_new 2 False :: nat ThreadPool)))
     = [5]
   \<and> active_task_count
        (snd (add_task (StdFunction (Some 5)) (ThreadPool_new 2 False :: nat ThreadPool))) = 1"
  using C6_add_task_rejects_null_else_enqueues
          [of "FnPtr None" "ThreadPool_new 2 False :: nat ThreadPool"]
        C6_add_task_rejects_null_else_enqueues
          [of "StdFunction None" "ThreadPool_new 2 False :: nat ThreadPool"]
        C6_add_task_rejects_null_else_enqueues
          [of "StdFunction (Some 5)" "ThreadPool_new 2 False :: nat ThreadPool"]
  by (simp add: ThreadPool_new_def active_task_count_def)


subsection \<open>Cancelling queued closures\<close>

lemma clear_queued_tasks_eq:
  "clear_queued_tasks p
     = p\<lparr>tasks_m := [],
          active_task_count_m := active_task_count_m p - word_of_nat (length (tasks_m p))\<rparr>"
  by (cases "tasks_m p = []") (simp_all add: clear_queued_tasks_def Let_def)

text \<open>
  Claim C7: \<^verbatim>\<open>clear_queued_tasks\<close> leaves the queue empty, takes the number of queued
  closures off the counter (in the counter's 32-bit arithmetic, and as a signed number
  whenever the counter is at least the queue's length), and changes no other member:
  the closures the workers hold, the mutex, the callback and its invocation count, the
  thread count and the shutdown flag stay as they were. On an empty queue the pool is unchanged.
\<close>

theorem C7_clear_queued_tasks_frame:
  "tasks_m (clear_queued_tasks p) = []
   \<and> active_task_count_m (clear_queued_tasks p)
       = active_task_count_m p - word_of_nat (length (tasks_m p))
   \<and> (int (length (tasks_m p)) \<le> active_task_count p \<longrightarrow>
        active_task_count (clear_queued_tasks p)
          = active_task_count p - int (length (tasks_m p)))
   \<and> workers_m (clear_queued_tasks p) = workers_m p
   \<and> wait_mtx_m (clear_queued_tasks p) = wait_mtx_m p
   \<and> on_complete_m (clear_queued_tasks p) = on_complete_m p
   \<and> on_complete_calls (clear_queued_tasks p) = on_complete_calls p
   \<and> thread_count_m (clear_queued_tasks p) = thread_count_m p
   \<and> is_shutting_down_m (clear_queued_tasks p) = is_shutting_down_m p
   \<and> clear_queued_tasks p
       = p\<lparr>tasks_m := [],
            active_task_count_m := active_task_count_m p - word_of_nat (length (tasks_m p))\<rparr>
   \<and> (tasks_m p = [] \<longrightarrow> clear_queued_tasks p = p)"
  by (simp add: clear_queued_tasks_eq active_task_count_def sint_sub_nat32)

theorem C7_clear_queued_tasks_frame_witness:
  "tasks_m (clear_queued_tasks
      \<lparr>tasks_m = [4, 5 :: nat], workers_m = [Popped 3, NoTask], wait_mtx_m = None, on_complete_m = True,
       on_complete_calls = 1, active_task_count_m = 3, thread_count_m = 2,
       is_shutting_down_m = False\<rparr>) = []
   \<and> active_task_count (clear_queued_tasks
      \<lparr>tasks_m = [4, 5 :: nat], workers_m = [Popped 3, NoTask], wait_mtx_m = None, on_complete_m = True,
       on_complete_calls = 1, active_task_count_m = 3, thread_count_m = 2,
       is_shutting_down_m = False\<rparr>) = 1
   \<and> workers_m (clear_queued_tasks
      \<lparr>tasks_m = [4, 5 :: nat], workers_m = [Popped 3, NoTask], wait_mtx_m = None, on_complete_m = True,
       on_complete_calls = 1, active_task_count_m = 3, thread_count_m = 2,
       is_shutting_down_m = False\<rparr>) = [Popped 3, NoTask]
   \<and> clear_queued_tasks (ThreadPool_new 2 True :: nat ThreadPool) = ThreadPool_new 2 True"
  using C7_clear_queued_tasks_frame
          [of "\<lparr>tasks_m = [4, 5 :: nat], workers_m = [Popped 3, NoTask], wait_mtx_m = None, on_complete_m = True,
                on_complete_calls = 1, active_task_count_m = 3, thread_count_m = 2,
                is_shutting_down_m = False\<rparr>"]
        C7_clear_queued_tasks_frame [of "ThreadPool_new 2 True :: nat ThreadPool"]
  by (simp add: ThreadPool_new_def active_task_count_def)


subsection \<open>The completion callback\<close>

lemma pool_run_simps [simp]:
  "pool_run [] p = p" "pool_run (e # es) p = pool_run es (pool_step e p)"
  "pool_run (es @ fs) p = pool_run fs (pool_run es p)"
  by (simp_all add: pool_run_def)




lemma add_task_on_complete:
  "on_complete_calls (snd (add_task fn p)) = on_complete_calls p"
  "on_complete_m (snd (add_task fn p)) = on_complete_m p"
  "wait_mtx_m (snd (add_task fn p)) = wait_mtx_m p"
  "workers_m (snd (add_task fn p)) = workers_m p"
  by (cases "is_null fn"; cases fn rule: is_null.cases; simp add: add_task_def)+


lemmas worker_defs = execute_task_pop_def execute_task_call_def execute_task_fetch_sub_def
  execute_task_load_def ThreadPool_run_def Let_def

lemma pool_step_on_complete [simp]: "on_complete_m (pool_step e p) = on_complete_m p"
  by (cases e) (simp_all add: add_task_on_complete clear_queued_tasks_eq worker_defs
      split: worker.split)

lemma pool_run_on_complete [simp]: "on_complete_m (pool_run es p) = on_complete_m p"
  by (induction es arbitrary: p) simp_all

lemma fetch_sub_cases:
  "execute_task_fetch_sub w p = p
   \<or> (wait_mtx_m p = None \<and> w < length (workers_m p)
      \<and> (\<exists>c. workers_m p ! w = Returned c
            \<and> execute_task_fetch_sub w p
                = p\<lparr>wait_mtx_m := Some w, active_task_count_m := active_task_count_m p - 1,
                    workers_m := (workers_m p)[w := Decremented c]\<rparr>))"
  by (simp add: execute_task_fetch_sub_def split: worker.split)

lemma load_cases:
  "execute_task_load w p = p
   \<or> (wait_mtx_m p = Some w \<and> w < length (workers_m p)
      \<and> (\<exists>c. workers_m p ! w = Decremented c
            \<and> execute_task_load w p
                = p\<lparr>on_complete_calls := on_complete_calls p
                        + (if active_task_count_m p = 0 \<and> on_complete_m p then 1 else 0),
                    wait_mtx_m := None, workers_m := (workers_m p)[w := NoTask]\<rparr>))"
  by (simp add: execute_task_load_def Let_def split: worker.split)








lemma filter_update_gain:
  "i < length xs \<Longrightarrow> \<not> P (xs ! i) \<Longrightarrow> P y \<Longrightarrow>
   length (filter P (xs[i := y])) = Suc (length (filter P xs))"
proof (induction xs arbitrary: i)
  case Nil
  then show ?case by simp
next
  case (Cons x xs)
  then show ?case by (cases i) simp_all
qed

lemma filter_update_lose:
  "i < length xs \<Longrightarrow> P (xs ! i) \<Longrightarrow> \<not> P y \<Longrightarrow>
   Suc (length (filter P (xs[i := y]))) = length (filter P xs)"
proof (induction xs arbitrary: i)
  case Nil
  then show ?case by simp
next
  case (Cons x xs)
  then show ?case by (cases i) simp_all
qed

lemma filter_update_same:
  "i < length xs \<Longrightarrow> P (xs ! i) = P y \<Longrightarrow>
   length (filter P (xs[i := y])) = length (filter P xs)"
proof (induction xs arbitrary: i)
  case Nil
  then show ?case by simp
next
  case (Cons x xs)
  then show ?case by (cases i) simp_all
qed

lemma balanced_idle: "balanced p \<Longrightarrow> is_idle p \<Longrightarrow> tasks_m p = [] \<and> in_flight p = 0"
  by (simp add: balanced_def is_idle_def)


lemma pop_effect:
  "execute_task_pop w p = p
   \<or> (w < length (workers_m p) \<and> workers_m p ! w = NoTask \<and> tasks_m p \<noteq> []
      \<and> execute_task_pop w p
          = p\<lparr>workers_m := (workers_m p)[w := Popped (hd (tasks_m p))], tasks_m := tl (tasks_m p)\<rparr>)"
  by (simp add: execute_task_pop_def)

lemma call_effect:
  "execute_task_call w p = p
   \<or> (w < length (workers_m p)
      \<and> (\<exists>c. workers_m p ! w = Popped c
            \<and> execute_task_call w p = p\<lparr>workers_m := (workers_m p)[w := Returned c]\<rparr>))"
  by (simp add: execute_task_call_def split: worker.split)

lemma worker_step_balanced:
  assumes "is_worker e" "balanced p"
  shows "balanced (pool_step e p)"
proof (cases e)
  case (Pop w)
  from pop_effect [of w p] show ?thesis
  proof (elim disjE conjE)
    assume a: "w < length (workers_m p)" "workers_m p ! w = NoTask" "tasks_m p \<noteq> []"
      "execute_task_pop w p
         = p\<lparr>workers_m := (workers_m p)[w := Popped (hd (tasks_m p))], tasks_m := tl (tasks_m p)\<rparr>"
    have "in_flight (execute_task_pop w p) = Suc (in_flight p)"
      unfolding a(4) using filter_update_gain [of w "workers_m p" uncounted "Popped (hd (tasks_m p))"] a(1,2)
      by (simp add: in_flight_def)
    moreover have "length (tasks_m (execute_task_pop w p)) + 1 = length (tasks_m p)"
      unfolding a(4) using a(3) by (cases "tasks_m p") simp_all
    moreover have "active_task_count_m (execute_task_pop w p) = active_task_count_m p"
      unfolding a(4) by simp
    ultimately show ?thesis using assms(2) by (simp add: Pop balanced_def)
  qed (use assms(2) Pop in simp)
next
  case (Call w)
  from call_effect [of w p] show ?thesis
  proof (elim disjE conjE exE)
    fix c
    assume a: "w < length (workers_m p)" "workers_m p ! w = Popped c"
      "execute_task_call w p = p\<lparr>workers_m := (workers_m p)[w := Returned c]\<rparr>"
    have "in_flight (execute_task_call w p) = in_flight p"
      unfolding a(3) using filter_update_same [of w "workers_m p" uncounted "Returned c"] a(1,2)
      by (simp add: in_flight_def)
    then show ?thesis using assms(2) by (simp add: Call balanced_def a(3))
  qed (use assms(2) Call in simp)
next
  case (FetchSub w)
  from fetch_sub_cases [of w p] show ?thesis
  proof (elim disjE conjE exE)
    fix c
    assume a: "w < length (workers_m p)" "workers_m p ! w = Returned c"
      "execute_task_fetch_sub w p
         = p\<lparr>wait_mtx_m := Some w, active_task_count_m := active_task_count_m p - 1,
             workers_m := (workers_m p)[w := Decremented c]\<rparr>"
    have fl: "Suc (in_flight (execute_task_fetch_sub w p)) = in_flight p"
      unfolding a(3) using filter_update_lose [of w "workers_m p" uncounted "Decremented c"] a(1,2)
      by (simp add: in_flight_def)
    then have "unat (active_task_count_m p) \<noteq> 0" using assms(2) by (simp add: balanced_def)
    then have "unat (active_task_count_m p - 1) = unat (active_task_count_m p) - 1"
      by (simp add: unat_minus_one unat_eq_zero [symmetric] del: unat_eq_zero)
    with fl assms(2) show ?thesis by (simp add: FetchSub balanced_def a(3))
  qed (use assms(2) FetchSub in simp)
next
  case (Load w)
  from load_cases [of w p] show ?thesis
  proof (elim disjE conjE exE)
    fix c
    assume a: "w < length (workers_m p)" "workers_m p ! w = Decremented c"
      "execute_task_load w p
         = p\<lparr>on_complete_calls := on_complete_calls p
                 + (if active_task_count_m p = 0 \<and> on_complete_m p then 1 else 0),
             wait_mtx_m := None, workers_m := (workers_m p)[w := NoTask]\<rparr>"
    have "in_flight (execute_task_load w p) = in_flight p"
      unfolding a(3) using filter_update_same [of w "workers_m p" uncounted NoTask] a(1,2)
      by (simp add: in_flight_def)
    then show ?thesis using assms(2) by (simp add: Load balanced_def a(3))
  qed (use assms(2) Load in simp)
next
  case Run
  then show ?thesis using assms(2)
    by (simp add: ThreadPool_run_def balanced_def in_flight_def)
qed (use assms in simp_all)









lemmas pool_eval = pool_run_def add_task_def clear_queued_tasks_def ThreadPool_run_def
  execute_task_pop_def execute_task_call_def execute_task_fetch_sub_def execute_task_load_def
  ThreadPool_new_def ThreadPool_wait_def active_task_count_def is_idle_def quiescent_def
  in_flight_def Let_def




text \<open>
  The condition on the run cannot be dropped. When a closure is submitted between a
  worker's decrement from one to zero and its load, the worker loads one and does not
  invoke the callback; when the queue is cleared between a worker's decrement from two to
  one and its load, the worker loads zero and invokes it.
\<close>

lemma between_fetch_sub_and_load:
  "returns_to_zero is_fetch_sub
     [AddTask (Functor 1), Run, Pop 0, Call 0, FetchSub 0, AddTask (Functor 2), Load 0]
     (ThreadPool_new 1 True :: nat ThreadPool) = 1
   \<and> on_complete_calls
        (pool_run [AddTask (Functor 1), Run, Pop 0, Call 0, FetchSub 0, AddTask (Functor 2), Load 0]
           (ThreadPool_new 1 True :: nat ThreadPool)) = 0
   \<and> returns_to_zero is_fetch_sub
        [AddTask (Functor 1), AddTask (Functor 2), Run, Pop 0, Call 0, FetchSub 0, ClearQueued, Load 0]
        (ThreadPool_new 1 True :: nat ThreadPool) = 0
   \<and> on_complete_calls
        (pool_run [AddTask (Functor 1), AddTask (Functor 2), Run, Pop 0, Call 0, FetchSub 0,
                   ClearQueued, Load 0]
           (ThreadPool_new 1 True :: nat ThreadPool)) = 1"
  by (simp add: pool_eval)

subsection \<open>The order of the statements of run\<close>

lemma append_eq_seven:
  assumes "us @ rest = [a, b, c, d, e, f, g]"
  shows "rest = [a, b, c, d, e, f, g] \<or> rest = [b, c, d, e, f, g] \<or> rest = [c, d, e, f, g]
     \<or> rest = [d, e, f, g] \<or> rest = [e, f, g] \<or> rest = [f, g] \<or> rest = [g] \<or> rest = []"
proof -
  have r: "rest = drop (length us) [a, b, c, d, e, f, g]"
    by (metis assms append_eq_conv_conj)
  have "length us \<le> 7"
    using arg_cong [OF assms, of length] by simp
  then have "length us = 0 \<or> length us = 1 \<or> length us = 2 \<or> length us = 3
     \<or> length us = 4 \<or> length us = 5 \<or> length us = 6 \<or> length us = 7" by arith
  then show ?thesis
    by (elim disjE) (simp_all add: r numeral_eq_Suc)
qed


lemma wait_steps_only_waits: "s \<in> set (wait_steps es) \<Longrightarrow> \<exists>n. s = WaitUntilRetrievable n"
  by (auto simp: wait_steps_def split: option.splits)

lemma Task_run_steps_shape:
  "Task_run_steps now1 now2 t = wait_steps (get_inward_edges t)
     @ [SetState Running, SetStartTime now1, InvokeCallable, SetEndTime now2,
        SetOutEdgeData, SetState Complete, NotifyOne]"
  by (simp add: Task_run_steps_def)

lemma pending_cases:
  assumes "Task_run_steps now1 now2 t = pre @ rest"
  shows "(\<exists>ws. rest = ws @ [SetState Running, SetStartTime now1, InvokeCallable, SetEndTime now2,
              SetOutEdgeData, SetState Complete, NotifyOne]
            \<and> (\<forall>s \<in> set ws. \<exists>n. s = WaitUntilRetrievable n))
         \<or> rest = [SetStartTime now1, InvokeCallable, SetEndTime now2, SetOutEdgeData, SetState Complete, NotifyOne]
         \<or> rest = [InvokeCallable, SetEndTime now2, SetOutEdgeData, SetState Complete, NotifyOne]
         \<or> rest = [SetEndTime now2, SetOutEdgeData, SetState Complete, NotifyOne]
         \<or> rest = [SetOutEdgeData, SetState Complete, NotifyOne]
         \<or> rest = [SetState Complete, NotifyOne] \<or> rest = [NotifyOne] \<or> rest = []"
proof -
  let ?ws = "wait_steps (get_inward_edges t)"
  let ?fx = "[SetState Running, SetStartTime now1, InvokeCallable, SetEndTime now2,
        SetOutEdgeData, SetState Complete, NotifyOne]"
  from assms have "pre @ rest = ?ws @ ?fx" by (simp add: Task_run_steps_shape)
  then have "\<exists>us. (pre = ?ws @ us \<and> us @ rest = ?fx) \<or> (pre @ us = ?ws \<and> rest = us @ ?fx)"
    by (simp only: append_eq_append_conv2)
  then obtain us where "(pre = ?ws @ us \<and> us @ rest = ?fx) \<or> (pre @ us = ?ws \<and> rest = us @ ?fx)" ..
  then show ?thesis
  proof
    assume "pre = ?ws @ us \<and> us @ rest = ?fx"
    then have "us @ rest = ?fx" ..
    from append_eq_seven [OF this] show ?thesis
    proof (elim disjE)
      assume "rest = ?fx"
      then have "rest = [] @ ?fx \<and> (\<forall>s \<in> set []. \<exists>n. s = WaitUntilRetrievable n)" by simp
      then show ?thesis by (intro disjI1 exI)
    qed simp_all
  next
    assume a: "pre @ us = ?ws \<and> rest = us @ ?fx"
    then have "set us \<subseteq> set ?ws" by (metis set_append Un_upper2)
    then have "\<forall>s \<in> set us. \<exists>n. s = WaitUntilRetrievable n"
      using wait_steps_only_waits by blast
    with a have "rest = us @ ?fx \<and> (\<forall>s \<in> set us. \<exists>n. s = WaitUntilRetrievable n)" by simp
    then show ?thesis by (intro disjI1 exI)
  qed
qed


lemma pending_order:
  assumes "Task_run_steps now1 now2 t = pre @ rest"
  shows "(InvokeCallable \<in> set rest \<longrightarrow> SetOutEdgeData \<in> set rest)
       \<and> (SetOutEdgeData \<in> set rest \<longrightarrow> SetState Complete \<in> set rest)"
  using pending_cases [OF assms] by (elim disjE exE conjE) simp_all

lemma pending_head_cases:
  assumes "Task_run_steps now1 now2 t = pre @ s # rest"
  shows "(\<exists>n ws. s = WaitUntilRetrievable n
            \<and> rest = ws @ [SetState Running, SetStartTime now1, InvokeCallable, SetEndTime now2,
                            SetOutEdgeData, SetState Complete, NotifyOne])
       \<or> (s = SetState Running
            \<and> rest = [SetStartTime now1, InvokeCallable, SetEndTime now2, SetOutEdgeData,
                       SetState Complete, NotifyOne])
       \<or> (s = SetStartTime now1
            \<and> rest = [InvokeCallable, SetEndTime now2, SetOutEdgeData, SetState Complete, NotifyOne])
       \<or> (s = InvokeCallable
            \<and> rest = [SetEndTime now2, SetOutEdgeData, SetState Complete, NotifyOne])
       \<or> (s = SetEndTime now2 \<and> rest = [SetOutEdgeData, SetState Complete, NotifyOne])
       \<or> (s = SetOutEdgeData \<and> rest = [SetState Complete, NotifyOne])
       \<or> (s = SetState Complete \<and> rest = [NotifyOne])
       \<or> (s = NotifyOne \<and> rest = [])"
  using pending_cases [OF assms]
proof (elim disjE exE conjE)
  fix ws
  assume a: "s # rest = ws @ [SetState Running, SetStartTime now1, InvokeCallable,
                SetEndTime now2, SetOutEdgeData, SetState Complete, NotifyOne]"
    and w: "\<forall>s\<in>set ws. \<exists>n. s = WaitUntilRetrievable n"
  show ?thesis
  proof (cases ws)
    case Nil
    with a show ?thesis by simp
  next
    case (Cons x xs)
    with a have "s = x"
      "rest = xs @ [SetState Running, SetStartTime now1, InvokeCallable, SetEndTime now2,
                    SetOutEdgeData, SetState Complete, NotifyOne]"
      by simp_all
    moreover from w Cons obtain n where "x = WaitUntilRetrievable n" by auto
    ultimately show ?thesis by (intro disjI1 exI [of _ n] exI [of _ xs]) simp
  qed
qed simp_all

lemma pending_head:
  assumes "Task_run_steps now1 now2 t = pre @ s # rest"
  shows "s = SetOutEdgeData \<longrightarrow> SetOutEdgeData \<notin> set rest \<and> SetState Complete \<in> set rest"
    and "s = SetState Complete \<longrightarrow> SetOutEdgeData \<notin> set rest \<and> SetState Complete \<notin> set rest"
    and "s = SetState st \<longrightarrow>
           st = Complete \<or> st = Running \<and> SetOutEdgeData \<in> set rest \<and> SetState Complete \<in> set rest"
proof -
  note c = pending_head_cases [OF assms]
  from c show "s = SetOutEdgeData \<longrightarrow> SetOutEdgeData \<notin> set rest \<and> SetState Complete \<in> set rest"
    by (elim disjE exE conjE) simp_all
  from c show "s = SetState Complete \<longrightarrow> SetOutEdgeData \<notin> set rest \<and> SetState Complete \<notin> set rest"
    by (elim disjE exE conjE) simp_all
  from c show "s = SetState st \<longrightarrow>
           st = Complete \<or> st = Running \<and> SetOutEdgeData \<in> set rest \<and> SetState Complete \<in> set rest"
    by (elim disjE exE conjE) simp_all
qed

lemma exec_step_this:
  "exec_step this s h = Some h' \<Longrightarrow>
   state_m (h' this) = (case s of SetState st \<Rightarrow> st | _ \<Rightarrow> state_m (h this))
   \<and> is_retrievable_m (out_edge_m (h' this))
       = (s = SetOutEdgeData \<or> is_retrievable_m (out_edge_m (h this)))"
  by (cases s)
     (auto simp: set_out_edge_data_def set_data_def set_data_void_def set_as_retrievable_def
           split: option.splits if_splits)

lemma run_stores_last:
  assumes "state_a A \<noteq> []" "is_retrievable_a A \<noteq> []"
  shows "state_a (run_stores s A) \<noteq> []" and "is_retrievable_a (run_stores s A) \<noteq> []"
    and "fst (last (state_a (run_stores s A)))
           = (case s of SetState st \<Rightarrow> st | _ \<Rightarrow> fst (last (state_a A)))"
    and "fst (last (is_retrievable_a (run_stores s A)))
           = (s = SetOutEdgeData \<or> fst (last (is_retrievable_a A)))"
  using assms by (cases s; simp add: atomic_store_def)+

lemma run_reach_invariant:
  assumes "run_reach this (h0, Task_run_steps now1 now2 t) (h, rest)"
  shows "\<exists>pre. Task_run_steps now1 now2 t = pre @ rest
           \<and> (SetOutEdgeData \<in> set rest \<longrightarrow>
                 is_retrievable_m (out_edge_m (h this)) = is_retrievable_m (out_edge_m (h0 this)))
           \<and> (SetOutEdgeData \<notin> set rest \<longrightarrow> is_retrievable_m (out_edge_m (h this)))
           \<and> (SetState Complete \<in> set rest \<longrightarrow>
                 state_m (h this) = state_m (h0 this) \<or> state_m (h this) = Running)
           \<and> (SetState Complete \<notin> set rest \<longrightarrow> state_m (h this) = Complete)
           \<and> state_a (fold run_stores pre (atomics_of (h0 this))) \<noteq> []
           \<and> is_retrievable_a (fold run_stores pre (atomics_of (h0 this))) \<noteq> []
           \<and> fst (last (state_a (fold run_stores pre (atomics_of (h0 this))))) = state_m (h this)
           \<and> fst (last (is_retrievable_a (fold run_stores pre (atomics_of (h0 this)))))
               = is_retrievable_m (out_edge_m (h this))"
  using assms
proof (induction "(h, rest)" arbitrary: h rest rule: run_reach.induct)
  case start
  have "SetOutEdgeData \<in> set (Task_run_steps now1 now2 t)"
    "SetState Complete \<in> set (Task_run_steps now1 now2 t)"
    by (simp_all add: Task_run_steps_def)
  then show ?case by (intro exI [of _ "[]"]) (simp add: atomics_of_def)
next
  case (step h s rest h')
  from step.hyps(2) obtain pre where d: "Task_run_steps now1 now2 t = pre @ s # rest"
    and latch: "SetOutEdgeData \<in> set (s # rest) \<longrightarrow>
        is_retrievable_m (out_edge_m (h this)) = is_retrievable_m (out_edge_m (h0 this))"
      "SetOutEdgeData \<notin> set (s # rest) \<longrightarrow> is_retrievable_m (out_edge_m (h this))"
    and state: "SetState Complete \<in> set (s # rest) \<longrightarrow>
        state_m (h this) = state_m (h0 this) \<or> state_m (h this) = Running"
      "SetState Complete \<notin> set (s # rest) \<longrightarrow> state_m (h this) = Complete"
    and A: "state_a (fold run_stores pre (atomics_of (h0 this))) \<noteq> []"
      "is_retrievable_a (fold run_stores pre (atomics_of (h0 this))) \<noteq> []"
      "fst (last (state_a (fold run_stores pre (atomics_of (h0 this))))) = state_m (h this)"
      "fst (last (is_retrievable_a (fold run_stores pre (atomics_of (h0 this)))))
         = is_retrievable_m (out_edge_m (h this))"
    by blast
  let ?A = "fold run_stores pre (atomics_of (h0 this))"
  have d': "Task_run_steps now1 now2 t = (pre @ [s]) @ rest" using d by simp
  have f: "fold run_stores (pre @ [s]) (atomics_of (h0 this)) = run_stores s ?A" by simp
  note e = exec_step_this [OF step.hyps(3)]
  note p = pending_head [OF d]
  note r = run_stores_last [OF A(1,2), of s]
  have l1: "SetOutEdgeData \<in> set rest \<longrightarrow>
      is_retrievable_m (out_edge_m (h' this)) = is_retrievable_m (out_edge_m (h0 this))"
    using e latch(1) p(1) by auto
  have l2: "SetOutEdgeData \<notin> set rest \<longrightarrow> is_retrievable_m (out_edge_m (h' this))"
    using e latch(2) by auto
  have s1: "SetState Complete \<in> set rest \<longrightarrow>
      state_m (h' this) = state_m (h0 this) \<or> state_m (h' this) = Running"
    using e state(1) p(2,3) by (cases s) auto
  have s2: "SetState Complete \<notin> set rest \<longrightarrow> state_m (h' this) = Complete"
    using e state(2) p(3) by (cases s) auto
  have a3: "fst (last (state_a (run_stores s ?A))) = state_m (h' this)"
    using r(3) e A(3) by (cases s) simp_all
  have a4: "fst (last (is_retrievable_a (run_stores s ?A)))
              = is_retrievable_m (out_edge_m (h' this))"
    using r(4) e A(4) by simp
  show ?case
    by (rule exI [of _ "pre @ [s]"], unfold f) (use d' l1 l2 s1 s2 r(1,2) a3 a4 in blast)
next
  case (others h rest h')
  then show ?case by simp
qed


lemma exec_steps_append:
  "exec_steps this (xs @ ys) h =
     (case exec_steps this xs h of None \<Rightarrow> None | Some h' \<Rightarrow> exec_steps this ys h')"
  by (induction xs arbitrary: h) (simp_all split: option.splits)

lemma exec_steps_reach:
  "run_reach this c (h, pre @ rest) \<Longrightarrow> exec_steps this pre h = Some h'
   \<Longrightarrow> run_reach this c (h', rest)"
proof (induction pre arbitrary: h)
  case Nil
  then show ?case by simp
next
  case (Cons s pre)
  from Cons.prems(2) obtain h1 where h1: "exec_step this s h = Some h1"
    "exec_steps this pre h1 = Some h'"
    by (auto split: option.splits)
  from Cons.prems(1) have "run_reach this c (h, s # pre @ rest)" by simp
  from run_reach.step [OF this h1(1)] Cons.IH h1(2) show ?case by blast
qed

lemma Task_run_reach:
  assumes "Task_run this now1 now2 h = Some h'"
  shows "run_reach this (h, Task_run_steps now1 now2 (h this)) (h', [])"
  using exec_steps_reach [of this "(h, Task_run_steps now1 now2 (h this))" h
      "Task_run_steps now1 now2 (h this)" "[]" h'] assms
  by (simp add: Task_run_def run_reach.start)


lemma join_fst: "fst v \<le> fst (join v v')" "fst v' \<le> fst (join v v')"
  and join_snd: "snd v \<le> snd (join v v')" "snd v' \<le> snd (join v v')"
  by (simp_all add: join_def)

lemma synchronised_reads_last:
  assumes "state_a A \<noteq> []" "is_retrievable_a A \<noteq> []"
    and "observe_get_state i (synchronise A v) A = Some (s, v1)"
    and "observe_is_retrievable j v1 A = Some (b, v2)"
  shows "s = fst (last (state_a A))" and "b = fst (last (is_retrievable_a A))"
proof -
  let ?v = "synchronise A v"
  have v: "length (state_a A) - 1 \<le> fst ?v" "length (is_retrievable_a A) - 1 \<le> snd ?v"
    using join_fst(2) [of "writer_view A" v] join_snd(2) [of "writer_view A" v]
    by (simp_all add: synchronise_def writer_view_def)
  from assms(3) have i: "fst ?v \<le> i" "i < length (state_a A)" "s = fst (state_a A ! i)"
    and v1: "v1 = join (i, snd ?v) (0, 0)"
    by (auto simp: observe_get_state_def atomic_load_def split: if_splits prod.splits)
  from i(1,2) v(1) have "i = length (state_a A) - 1" by simp
  with i(3) assms(1) show "s = fst (last (state_a A))" by (simp add: last_conv_nth)
  from v1 have "snd v1 = snd ?v" by (simp add: join_def)
  with assms(4) have j: "snd ?v \<le> j" "j < length (is_retrievable_a A)"
    "b = fst (is_retrievable_a A ! j)"
    by (auto simp: observe_is_retrievable_def atomic_load_def split: if_splits prod.splits)
  from j(1,2) v(2) have "j = length (is_retrievable_a A) - 1" by simp
  with j(3) assms(2) show "b = fst (last (is_retrievable_a A))" by (simp add: last_conv_nth)
qed

text \<open>
  Claim C2, amended. Take any moment of an execution of \<^verbatim>\<open>run()\<close> on a task that is not
  yet \<open>Complete\<close> and whose outward edge is not yet latched, with the other threads acting
  in between. The callable is invoked in the run; while its call is still to come the
  outward edge is not latched, and producing on the edge is still to come; while
  producing is still to come so is the store of \<open>Complete\<close>, and the state is not
  \<open>Complete\<close> before that store; at the end of the run the state is \<open>Complete\<close>. In the
  memory, where each member has the value stored last in its modification order, the
  state is never \<open>Complete\<close> while the edge is not latched, and a thread that has
  synchronised with the running thread at a moment when the state is \<open>Complete\<close> reads
  \<open>Complete\<close> with \<^verbatim>\<open>get_state()\<close> and then reads the edge as latched with
  \<^verbatim>\<open>is_retrievable()\<close>.
\<close>

theorem C2_latched_before_Complete_in_program_order:
  assumes "run_reach this (h0, Task_run_steps now1 now2 (h0 this)) (h, rest)"
    and "Task_run_steps now1 now2 (h0 this) = pre @ rest"
    and "get_state (h0 this) \<noteq> Complete" and "\<not> is_retrievable (out_edge_m (h0 this))"
  shows "InvokeCallable \<in> set (Task_run_steps now1 now2 (h0 this))
       \<and> (InvokeCallable \<in> set rest \<longrightarrow>
            \<not> is_retrievable (out_edge_m (h this)) \<and> SetOutEdgeData \<in> set rest)
       \<and> (SetOutEdgeData \<in> set rest \<longrightarrow>
            get_state (h this) \<noteq> Complete \<and> SetState Complete \<in> set rest)
       \<and> (SetState Complete \<in> set rest \<longrightarrow> get_state (h this) \<noteq> Complete)
       \<and> (rest = [] \<longrightarrow> get_state (h this) = Complete)
       \<and> fst (last (state_a (fold run_stores pre (atomics_of (h0 this))))) = get_state (h this)
       \<and> fst (last (is_retrievable_a (fold run_stores pre (atomics_of (h0 this)))))
           = is_retrievable (out_edge_m (h this))
       \<and> (get_state (h this) = Complete \<longrightarrow>
            is_retrievable (out_edge_m (h this))
            \<and> (\<forall>v i j s b v1 v2.
                  observe_get_state i
                      (synchronise (fold run_stores pre (atomics_of (h0 this))) v)
                      (fold run_stores pre (atomics_of (h0 this))) = Some (s, v1)
                  \<and> observe_is_retrievable j v1
                      (fold run_stores pre (atomics_of (h0 this))) = Some (b, v2)
                  \<longrightarrow> s = Complete \<and> b))"
proof -
  let ?A = "fold run_stores pre (atomics_of (h0 this))"
  from run_reach_invariant [OF assms(1)] obtain pre' where
    p: "Task_run_steps now1 now2 (h0 this) = pre' @ rest"
    and latch: "SetOutEdgeData \<in> set rest \<longrightarrow>
        is_retrievable_m (out_edge_m (h this)) = is_retrievable_m (out_edge_m (h0 this))"
      "SetOutEdgeData \<notin> set rest \<longrightarrow> is_retrievable_m (out_edge_m (h this))"
    and state: "SetState Complete \<in> set rest \<longrightarrow>
        state_m (h this) = state_m (h0 this) \<or> state_m (h this) = Running"
      "SetState Complete \<notin> set rest \<longrightarrow> state_m (h this) = Complete"
    and A': "state_a (fold run_stores pre' (atomics_of (h0 this))) \<noteq> []"
      "is_retrievable_a (fold run_stores pre' (atomics_of (h0 this))) \<noteq> []"
      "fst (last (state_a (fold run_stores pre' (atomics_of (h0 this))))) = state_m (h this)"
      "fst (last (is_retrievable_a (fold run_stores pre' (atomics_of (h0 this)))))
         = is_retrievable_m (out_edge_m (h this))"
    by blast
  from p assms(2) have "pre' = pre" by simp
  note A = A' [unfolded this]
  note po = pending_order [OF assms(2)]
  have init: "state_m (h0 this) \<noteq> Complete" "\<not> is_retrievable_m (out_edge_m (h0 this))"
    using assms(3,4) by (simp_all add: get_state_def is_retrievable_def)
  have c1: "InvokeCallable \<in> set (Task_run_steps now1 now2 (h0 this))"
    by (simp add: Task_run_steps_def)
  have c4: "SetState Complete \<in> set rest \<longrightarrow> state_m (h this) \<noteq> Complete"
    using state(1) init(1) by auto
  have c2: "InvokeCallable \<in> set rest \<longrightarrow>
      \<not> is_retrievable_m (out_edge_m (h this)) \<and> SetOutEdgeData \<in> set rest"
    using po latch(1) init(2) by auto
  have c3: "SetOutEdgeData \<in> set rest \<longrightarrow>
      state_m (h this) \<noteq> Complete \<and> SetState Complete \<in> set rest"
    using po c4 by auto
  have c5: "rest = [] \<longrightarrow> state_m (h this) = Complete" using state(2) by auto
  have c6: "is_retrievable_m (out_edge_m (h this))" if "state_m (h this) = Complete"
    using that c4 po latch(2) by auto
  have c7: "s = Complete \<and> b"
    if "state_m (h this) = Complete"
      and "observe_get_state i (synchronise ?A v) ?A = Some (s, v1)
           \<and> observe_is_retrievable j v1 ?A = Some (b, v2)"
    for v i j s b v1 v2
  proof -
    from that(2) have o: "observe_get_state i (synchronise ?A v) ?A = Some (s, v1)"
      "observe_is_retrievable j v1 ?A = Some (b, v2)" by simp_all
    from synchronised_reads_last [OF A(1,2) o] A(3,4) that(1) c6 show ?thesis by simp
  qed
  show ?thesis
    unfolding get_state_def is_retrievable_def
    using c1 c2 c3 c4 c5 c6 c7 A(3,4) by blast
qed


lemmas task_eval = Task_run_def Task_run_steps_def wait_steps_def get_inward_edges_def
  S2_heap_def S2_task_def Task_new_def set_callable_def add_inward_edge_def Edge_new_def
  run_impl_def integer_sequence_void_filter_def get_inward_edge_value_def
  set_out_edge_data_def set_data_def set_data_void_def set_as_retrievable_def
  wait_until_retrievable_def get_data_def get_state_def get_result_def is_retrievable_def


lemma S2_run0: "\<exists>h. Task_run 0 5 6 S2_heap = Some h"
  by (simp add: task_eval)

lemmas atomics_eval = atomics_of_def atomic_store_def atomic_load_def observe_get_state_def
  observe_is_retrievable_def synchronise_def writer_view_def join_def

theorem C2_latched_before_Complete_in_program_order_witness:
  "get_state (S2_heap 0) = Incomplete \<and> \<not> is_retrievable (out_edge_m (S2_heap 0))
   \<and> get_state (the (Task_run 0 5 6 S2_heap) 0) = Complete
   \<and> is_retrievable (out_edge_m (the (Task_run 0 5 6 S2_heap) 0))
   \<and> observe_get_state 2
        (synchronise (fold run_stores (Task_run_steps 5 6 (S2_heap 0)) (atomics_of (S2_heap 0)))
           (0, 0))
        (fold run_stores (Task_run_steps 5 6 (S2_heap 0)) (atomics_of (S2_heap 0)))
       = Some (Complete, (2, 1))
   \<and> observe_is_retrievable 1 (2, 1)
        (fold run_stores (Task_run_steps 5 6 (S2_heap 0)) (atomics_of (S2_heap 0)))
       = Some (True, (2, 1))"
proof -
  from S2_run0 obtain h where h: "Task_run 0 5 6 S2_heap = Some h" ..
  have i: "get_state (S2_heap 0) = Incomplete" "\<not> is_retrievable (out_edge_m (S2_heap 0))"
    by (simp_all add: task_eval)
  have o: "observe_get_state 2
        (synchronise (fold run_stores (Task_run_steps 5 6 (S2_heap 0)) (atomics_of (S2_heap 0)))
           (0, 0))
        (fold run_stores (Task_run_steps 5 6 (S2_heap 0)) (atomics_of (S2_heap 0)))
       = Some (Complete, (2, 1))"
    "observe_is_retrievable 1 (2, 1)
        (fold run_stores (Task_run_steps 5 6 (S2_heap 0)) (atomics_of (S2_heap 0)))
       = Some (True, (2, 1))"
    by (simp_all add: task_eval atomics_eval)
  from C2_latched_before_Complete_in_program_order
         [OF Task_run_reach [OF h], of "Task_run_steps 5 6 (S2_heap 0)"] i h
  have "get_state (h 0) = Complete \<and> is_retrievable (out_edge_m (h 0))" by simp
  with i o h show ?thesis by simp
qed

text \<open>
  Claim C2, as stated, fails for the observer: a consumer that observes \<open>Complete\<close> need
  not observe the outward edge latched. Let the first task of the chain run to its end:
  the stores to its state are \<open>Incomplete\<close>, \<open>Running\<close>, \<open>Complete\<close> and the stores to the
  latch of its outward edge are \<open>False\<close>, \<open>True\<close>. A thread that knows nothing of the run
  may read \<open>Complete\<close> with \<^verbatim>\<open>get_state()\<close>, a relaxed load, which tells it nothing about
  the latch, and may then read \<open>False\<close> with \<^verbatim>\<open>is_retrievable()\<close>.
\<close>

theorem C2_observer_reads_Complete_then_unlatched:
  "(\<exists>h. Task_run 0 5 6 S2_heap = Some h \<and> get_state (h 0) = Complete)
   \<and> map fst (state_a (fold run_stores (Task_run_steps 5 6 (S2_heap 0)) (atomics_of (S2_heap 0))))
     = [Incomplete, Running, Complete]
   \<and> map fst (is_retrievable_a
        (fold run_stores (Task_run_steps 5 6 (S2_heap 0)) (atomics_of (S2_heap 0))))
     = [False, True]
   \<and> observe_get_state 2 (0, 0)
        (fold run_stores (Task_run_steps 5 6 (S2_heap 0)) (atomics_of (S2_heap 0)))
       = Some (Complete, (2, 0))
   \<and> observe_is_retrievable 0 (2, 0)
        (fold run_stores (Task_run_steps 5 6 (S2_heap 0)) (atomics_of (S2_heap 0)))
       = Some (False, (2, 0))"
  by (simp add: task_eval atomics_eval)


text \<open>
  Claim C3 puts producing on the outward edge before the recording of the end timestamp,
  as the comment above \<^verbatim>\<open>run()\<close> does. The statements of \<^verbatim>\<open>run()\<close> are in another order:
  for the second task of the chain, started at time 5 and ended at time 6, the end time
  is set before the outward edge is produced.
\<close>

theorem C3_run_records_end_time_before_produce:
  "Task_run_steps 5 6 (S2_heap 1)
     = [WaitUntilRetrievable 0, SetState Running, SetStartTime 5, InvokeCallable, SetEndTime 6,
        SetOutEdgeData, SetState Complete, NotifyOne]"
  by (simp add: task_eval)

subsection \<open>Slots without an edge\<close>

lemma exec_wait_steps:
  "exec_steps this (wait_steps es @ rest) h =
     (if \<forall>n. Some n \<in> set es \<longrightarrow> is_retrievable (out_edge_m (h n))
      then exec_steps this rest h else None)"
proof (induction es)
  case Nil
  then show ?case by (simp add: wait_steps_def)
next
  case (Cons e es)
  have w: "wait_steps (e # es) = (case e of None \<Rightarrow> [] | Some n \<Rightarrow> [WaitUntilRetrievable n]) @ wait_steps es"
    by (simp add: wait_steps_def)
  show ?case
  proof (cases e)
    case None
    with Cons w show ?thesis by simp
  next
    case (Some n)
    with Cons w show ?thesis
      by (auto simp: wait_until_retrievable_def is_retrievable_def)
  qed
qed

lemma run_impl_this_upd:
  assumes "in_edges_m t' = in_edges_m (h this)" "callable_m t' = callable_m (h this)"
    "out_edge_m t' = out_edge_m (h this)"
  shows "run_impl (h(this := t')) t' = run_impl h (h this)"
proof -
  have "out_edge_m ((h(this := t')) n) = out_edge_m (h n)" for n
    using assms(3) by simp
  then have "get_inward_edge_value (h(this := t')) t' = get_inward_edge_value h (h this)"
    unfolding get_inward_edge_value_def assms(1) by (intro ext) (simp split: option.split)
  then show ?thesis
    by (simp add: run_impl_def integer_sequence_void_filter_def assms(1,2))
qed

lemma Task_run_closed:
  "Task_run this now1 now2 h =
     (if ready h (h this) then Some (h(this := completed now1 now2 h (h this))) else None)"
proof -
  let ?t1 = "(h this)\<lparr>state_m := Running, start_time_m := now1\<rparr>"
  have r: "run_impl (h(this := ?t1)) ?t1 = run_impl h (h this)"
    by (rule run_impl_this_upd) simp_all
  show ?thesis
    unfolding Task_run_def Task_run_steps_def exec_wait_steps ready_def
    by (simp add: r completed_def Let_def)
qed


lemma set_update_None:
  assumes "i < length ys" "ys ! i = None"
  shows "Some m \<in> set (ys[i := Some n]) \<longleftrightarrow> m = n \<or> Some m \<in> set ys"
proof
  assume "Some m \<in> set (ys[i := Some n])"
  then have "Some m \<in> insert (Some n) (set ys)"
    using set_update_subset_insert by fastforce
  then show "m = n \<or> Some m \<in> set ys" by auto
next
  assume a: "m = n \<or> Some m \<in> set ys"
  show "Some m \<in> set (ys[i := Some n])"
  proof (cases "m = n")
    case True
    then show ?thesis using assms(1) by (simp add: set_update_memI)
  next
    case False
    with a obtain j where j: "j < length ys" "ys ! j = Some m"
      by (auto simp: in_set_conv_nth)
    with assms(2) have "j \<noteq> i" by auto
    with j have "(ys[i := Some n]) ! j = Some m" by simp
    with j(1) show ?thesis by (metis length_list_update nth_mem)
  qed
qed

lemma attach_ready:
  assumes "i < length (in_edges_m (h this))" "in_edges_m (h this) ! i = (ValueT d, None)"
    "is_retrievable (out_edge_m (h n))"
  shows "ready (h(this := add_inward_edge i (Some n) (h this))) (add_inward_edge i (Some n) (h this))
         = ready h (h this)"
proof -
  let ?t = "h this" and ?t' = "add_inward_edge i (Some n) (h this)"
  have g: "get_inward_edges ?t' = (get_inward_edges ?t)[i := Some n]"
    by (simp add: get_inward_edges_def add_inward_edge_def map_update)
  have l: "i < length (get_inward_edges ?t)" "get_inward_edges ?t ! i = None"
    using assms(1,2) by (simp_all add: get_inward_edges_def)
  have o: "out_edge_m ((h(this := ?t')) m) = out_edge_m (h m)" for m
    by (simp add: add_inward_edge_def)
  show ?thesis
    unfolding ready_def g o set_update_None [OF l] using assms(3) by auto
qed

lemma attach_run_impl:
  assumes "i < length (in_edges_m (h this))" "in_edges_m (h this) ! i = (ValueT d, None)"
    "get_data (out_edge_m (h n)) = d"
  shows "run_impl (h(this := add_inward_edge i (Some n) (h this))) (add_inward_edge i (Some n) (h this))
         = run_impl h (h this)"
proof -
  let ?t = "h this" and ?t' = "add_inward_edge i (Some n) (h this)"
  let ?h' = "h(this := ?t')"
  have o: "out_edge_m (?h' m) = out_edge_m (h m)" for m
    by (simp add: add_inward_edge_def)
  have len: "length (in_edges_m ?t') = length (in_edges_m ?t)"
    by (simp add: add_inward_edge_def)
  have ty: "fst (in_edges_m ?t' ! j) = fst (in_edges_m ?t ! j)" if "j < length (in_edges_m ?t)" for j
    using that assms(2) by (cases "j = i") (simp_all add: add_inward_edge_def)
  have v: "get_inward_edge_value ?h' ?t' j = get_inward_edge_value h ?t j"
    if "j < length (in_edges_m ?t)" for j
  proof (cases "j = i")
    case True
    then show ?thesis
      using assms unfolding get_inward_edge_value_def o
      by (simp add: add_inward_edge_def)
  next
    case False
    then show ?thesis
      using that unfolding get_inward_edge_value_def o
      by (simp add: add_inward_edge_def split: option.split)
  qed
  have f: "integer_sequence_void_filter ?t' = integer_sequence_void_filter ?t"
    unfolding integer_sequence_void_filter_def len
    by (rule filter_cong) (simp_all add: ty)
  have m: "map (get_inward_edge_value ?h' ?t') (integer_sequence_void_filter ?t)
        = map (get_inward_edge_value h ?t) (integer_sequence_void_filter ?t)"
    by (rule map_cong) (simp_all add: integer_sequence_void_filter_def v)
  have c: "callable_m ?t' = callable_m ?t" by (simp add: add_inward_edge_def)
  show ?thesis
    unfolding run_impl_def f m c ..
qed

lemma attach_completed:
  assumes "run_impl h' (add_inward_edge i e t) = run_impl h t"
  shows "completed now1 now2 h' (add_inward_edge i e t)
         = add_inward_edge i e (completed now1 now2 h t)"
  using assms
  by (simp add: completed_def Let_def add_inward_edge_def set_out_edge_data_def)


lemma wait_steps_set:
  "WaitUntilRetrievable m \<in> set (wait_steps es) \<longleftrightarrow> Some m \<in> set es"
  by (induction es) (auto simp: wait_steps_def split: option.splits)

lemma completed_result:
  "\<not> returns_void t \<Longrightarrow> result_m (completed now1 now2 h t) = run_impl h t"
  by (simp add: completed_def Let_def set_out_edge_data_def)

text \<open>
  Claim C10: let slot \<open>i\<close> of the task at \<open>this\<close> be of a value type with default value \<open>d\<close>
  and have no edge. Then \<^verbatim>\<open>run()\<close> returns exactly when the attached inward edges are
  latched, and it waits on the edges of the other slots only; the callable is given \<open>d\<close>
  at position \<open>i\<close>, and the result is the callable applied to the inward values; and the
  run is the one of the same task with slot \<open>i\<close> attached to an edge that is already latched
  with the value \<open>d\<close>, but for the pointer in the slot.
\<close>

theorem C10_null_slot_does_not_block:
  assumes "i < length (in_edges_m (h this))" and "in_edges_m (h this) ! i = (ValueT d, None)"
  shows "(Task_run this now1 now2 h \<noteq> None \<longleftrightarrow>
            (\<forall>n. Some n \<in> set (get_inward_edges (h this)) \<longrightarrow> is_retrievable (out_edge_m (h n))))
       \<and> (WaitUntilRetrievable m \<in> set (Task_run_steps now1 now2 (h this)) \<longleftrightarrow>
            (\<exists>j < length (in_edges_m (h this)). j \<noteq> i \<and> snd (in_edges_m (h this) ! j) = Some m))
       \<and> i \<in> set (integer_sequence_void_filter (h this))
       \<and> get_inward_edge_value h (h this) i = d
       \<and> (\<forall>h'. Task_run this now1 now2 h = Some h' \<and> \<not> returns_void (h this) \<longrightarrow>
             get_result (h' this)
               = callable_m (h this)
                   (map (get_inward_edge_value h (h this)) (integer_sequence_void_filter (h this))))
       \<and> (is_retrievable (out_edge_m (h n)) \<and> get_data (out_edge_m (h n)) = d \<longrightarrow>
             Task_run this now1 now2 (h(this := add_inward_edge i (Some n) (h this)))
               = map_option (\<lambda>h'. h'(this := add_inward_edge i (Some n) (h' this)))
                   (Task_run this now1 now2 h))"
proof (intro conjI)
  show "Task_run this now1 now2 h \<noteq> None \<longleftrightarrow>
          (\<forall>n. Some n \<in> set (get_inward_edges (h this)) \<longrightarrow> is_retrievable (out_edge_m (h n)))"
    by (simp add: Task_run_closed ready_def)
next
  have "Some m \<in> set (get_inward_edges (h this)) \<longleftrightarrow>
          (\<exists>j < length (in_edges_m (h this)). snd (in_edges_m (h this) ! j) = Some m)"
    unfolding get_inward_edges_def in_set_conv_nth [of "Some m" "map snd (in_edges_m (h this))"]
    by auto
  also have "\<dots> \<longleftrightarrow> (\<exists>j < length (in_edges_m (h this)). j \<noteq> i \<and> snd (in_edges_m (h this) ! j) = Some m)"
    using assms(2) by auto
  finally show "WaitUntilRetrievable m \<in> set (Task_run_steps now1 now2 (h this)) \<longleftrightarrow>
      (\<exists>j < length (in_edges_m (h this)). j \<noteq> i \<and> snd (in_edges_m (h this) ! j) = Some m)"
    by (simp add: Task_run_steps_def wait_steps_set)
next
  show "i \<in> set (integer_sequence_void_filter (h this))"
    using assms by (simp add: integer_sequence_void_filter_def)
next
  show "get_inward_edge_value h (h this) i = d"
    using assms by (simp add: get_inward_edge_value_def)
next
  show "\<forall>h'. Task_run this now1 now2 h = Some h' \<and> \<not> returns_void (h this) \<longrightarrow>
          get_result (h' this)
            = callable_m (h this)
                (map (get_inward_edge_value h (h this)) (integer_sequence_void_filter (h this)))"
    by (auto simp: Task_run_closed get_result_def completed_result run_impl_def split: if_splits)
next
  show "is_retrievable (out_edge_m (h n)) \<and> get_data (out_edge_m (h n)) = d \<longrightarrow>
          Task_run this now1 now2 (h(this := add_inward_edge i (Some n) (h this)))
            = map_option (\<lambda>h'. h'(this := add_inward_edge i (Some n) (h' this)))
                (Task_run this now1 now2 h)"
  proof
    assume a: "is_retrievable (out_edge_m (h n)) \<and> get_data (out_edge_m (h n)) = d"
    let ?h' = "h(this := add_inward_edge i (Some n) (h this))"
    have r: "ready ?h' (?h' this) = ready h (h this)"
      using attach_ready [of i h this d n] assms a by simp
    have c: "completed now1 now2 ?h' (?h' this)
               = add_inward_edge i (Some n) (completed now1 now2 h (h this))"
      using attach_completed [of ?h' i "Some n" "h this" h now1 now2]
        attach_run_impl [of i h this d n] assms a by simp
    show "Task_run this now1 now2 ?h'
            = map_option (\<lambda>h'. h'(this := add_inward_edge i (Some n) (h' this)))
                (Task_run this now1 now2 h)"
      unfolding Task_run_closed r c by simp
  qed
qed


theorem C10_null_slot_does_not_block_witness:
  "in_edges_m (null_slot_heap 7) ! 0 = (ValueT 0, None)
   \<and> Task_run 7 5 6 null_slot_heap \<noteq> None
   \<and> get_inward_edge_value null_slot_heap (null_slot_heap 7) 0 = 0
   \<and> get_result (the (Task_run 7 5 6 null_slot_heap) 7) = 1
   \<and> Task_run 7 5 6 (null_slot_heap(7 := add_inward_edge 0 (Some 3) (null_slot_heap 7)))
       = map_option (\<lambda>h'. h'(7 := add_inward_edge 0 (Some 3) (h' 7)))
           (Task_run 7 5 6 null_slot_heap)"
proof -
  have a: "0 < length (in_edges_m (null_slot_heap 7))"
    "in_edges_m (null_slot_heap 7) ! 0 = (ValueT 0, None)"
    "is_retrievable (out_edge_m (null_slot_heap 3))"
    "get_data (out_edge_m (null_slot_heap 3)) = 0"
    "\<not> returns_void (null_slot_heap 7)"
    by (simp_all add: null_slot_heap_def task_eval)
  have r: "\<forall>n. Some n \<in> set (get_inward_edges (null_slot_heap 7)) \<longrightarrow>
             is_retrievable (out_edge_m (null_slot_heap n))"
    by (simp add: null_slot_heap_def task_eval)
  have c: "callable_m (null_slot_heap 7)
             (map (get_inward_edge_value null_slot_heap (null_slot_heap 7))
                (integer_sequence_void_filter (null_slot_heap 7))) = 1"
    by (simp add: null_slot_heap_def task_eval)
  from C10_null_slot_does_not_block [of 0 null_slot_heap 7 0 5 6 _ 3] a r c
  show ?thesis by auto
qed

subsection \<open>The reachability pass\<close>

lemma only_reach_refl: "only_reach h h"
  by (simp add: only_reach_def)

lemma only_reach_trans: "only_reach h h1 \<Longrightarrow> only_reach h1 h2 \<Longrightarrow> only_reach h h2"
  unfolding only_reach_def
proof
  fix x
  assume a: "\<forall>x. h1 x = (h x)\<lparr>reachability_m := reachability_m (h1 x)\<rparr>"
    and b: "\<forall>x. h2 x = (h1 x)\<lparr>reachability_m := reachability_m (h2 x)\<rparr>"
  have "h2 x = (h1 x)\<lparr>reachability_m := reachability_m (h2 x)\<rparr>" using b by blast
  also have "h1 x = (h x)\<lparr>reachability_m := reachability_m (h1 x)\<rparr>" using a by blast
  finally show "h2 x = (h x)\<lparr>reachability_m := reachability_m (h2 x)\<rparr>" by simp
qed

lemma only_reach_edges: "only_reach h h' \<Longrightarrow> in_edges_m (h' x) = in_edges_m (h x)"
  unfolding only_reach_def by (metis (no_types) Task.select_convs(1) Task.surjective Task.update_convs(3))

lemma only_reach_graph: "only_reach h h' \<Longrightarrow> graph_of h' = graph_of h"
  by (rule ext) (simp add: graph_of_def get_inward_edges_def only_reach_edges)

lemma anc_mono: "S \<subseteq> S' \<Longrightarrow> anc g S \<subseteq> anc g S'"
proof
  fix x assume "S \<subseteq> S'" "x \<in> anc g S"
  from this(2,1) show "x \<in> anc g S'"
    by (induction rule: anc.induct) (auto intro: anc.intros)
qed

lemma anc_producers: "anc g {p. Some p \<in> set (g n)} \<subseteq> anc g {n}"
proof
  fix x assume "x \<in> anc g {p. Some p \<in> set (g n)}"
  then show "x \<in> anc g {n}"
    by (induction rule: anc.induct) (auto intro: anc.intros)
qed

lemma Post_refl: "Good g rk (fst s) (snd s) b \<Longrightarrow> Post g rk S c b s s"
  by (simp add: Post_def only_reach_refl)

lemma Post_trans:
  assumes "Post g rk S1 c1 b1 s s1" "Post g rk S2 c2 b s1 s2"
    "S1 \<subseteq> S" "S2 \<subseteq> S" "c1 \<le> c" "c2 \<le> c"
  shows "Post g rk S c b s s2"
proof -
  have sub: "snd s \<subseteq> snd s1" "snd s1 \<subseteq> snd s2"
    using assms(1,2) by (simp_all add: Post_def)
  have new: "x \<in> anc g S \<and> rk x < c" if "x \<in> snd s2 - snd s" for x
  proof (cases "x \<in> snd s1")
    case True
    with that have "x \<in> snd s1 - snd s" by simp
    with assms(1) have "x \<in> anc g S1 \<and> rk x < c1" by (simp add: Post_def)
    with assms(3,5) anc_mono [of S1 S g] show ?thesis by auto
  next
    case False
    with that have "x \<in> snd s2 - snd s1" by simp
    with assms(2) have "x \<in> anc g S2 \<and> rk x < c2" by (simp add: Post_def)
    with assms(4,6) anc_mono [of S2 S g] show ?thesis by auto
  qed
  have same: "fst s2 x = fst s x" if "x \<notin> snd s2 - snd s" for x
  proof -
    from that sub have "x \<notin> snd s2 - snd s1" "x \<notin> snd s1 - snd s" by auto
    with assms(1,2) show ?thesis by (simp add: Post_def)
  qed
  have "only_reach (fst s) (fst s2)"
    using assms(1,2) only_reach_trans by (auto simp: Post_def)
  moreover have "Good g rk (fst s2) (snd s2) b" using assms(2) by (simp add: Post_def)
  ultimately show ?thesis
    using sub new same by (simp add: Post_def)
qed

lemma inward_loop_correct:
  assumes v: "visit_ok N g rk c visit"
    and es: "\<forall>p. Some p \<in> set es \<longrightarrow> p \<in> N \<and> rk p < c"
    and h: "graph_of (fst s) = g" "Good g rk (fst s) (snd s) c"
  shows "\<exists>s' ks. inward_loop visit es s = Some (s', map ucast ks)
           \<and> Post g rk {p. Some p \<in> set es} c c s s'
           \<and> (\<forall>p. Some p \<in> set es \<longrightarrow> p \<in> snd s')
           \<and> list_all2 (\<lambda>e k. (e = None \<longrightarrow> k = 0) \<and> (\<forall>p. e = Some p \<longrightarrow> code_depth g p k)) es ks"
  using es h
proof (induction es arbitrary: s)
  case Nil
  then show ?case by (simp add: Post_refl)
next
  case (Cons e es)
  have es': "\<forall>p. Some p \<in> set es \<longrightarrow> p \<in> N \<and> rk p < c" using Cons.prems(1) by simp
  show ?case
  proof (cases e)
    case None
    from Cons.IH [OF es' Cons.prems(2,3)] obtain s' ks where
      l: "inward_loop visit es s = Some (s', map ucast ks)"
         "Post g rk {p. Some p \<in> set es} c c s s'"
         "\<forall>p. Some p \<in> set es \<longrightarrow> p \<in> snd s'"
         "list_all2 (\<lambda>e k. (e = None \<longrightarrow> k = 0) \<and> (\<forall>p. e = Some p \<longrightarrow> code_depth g p k)) es ks"
      by blast
    have "{p. Some p \<in> set (e # es)} = {p. Some p \<in> set es}" using None by auto
    moreover have "inward_loop visit (e # es) s = Some (s', map ucast (0 # ks))"
      using None l(1) by simp
    moreover have "list_all2 (\<lambda>e k. (e = None \<longrightarrow> k = 0) \<and> (\<forall>p. e = Some p \<longrightarrow> code_depth g p k))
        (e # es) (0 # ks)"
      using None l(4) by simp
    ultimately show ?thesis using l(2,3) None by (intro exI [of _ s'] exI [of _ "0 # ks"]) simp
  next
    case (Some p)
    have p: "p \<in> N" "rk p < c" using Cons.prems(1) Some by simp_all
    from v p Cons.prems(2,3) obtain s1 where
      s1: "visit p s = Some s1" "p \<in> snd s1" "Post g rk {p} (Suc (rk p)) c s s1"
      unfolding visit_ok_def by (metis prod.collapse)
    have g1: "graph_of (fst s1) = g"
      using s1(3) Cons.prems(2) only_reach_graph by (auto simp: Post_def)
    have good1: "Good g rk (fst s1) (snd s1) c" using s1(3) by (simp add: Post_def)
    from Cons.IH [OF es' g1 good1] obtain s2 ks where
      l: "inward_loop visit es s1 = Some (s2, map ucast ks)"
         "Post g rk {p. Some p \<in> set es} c c s1 s2"
         "\<forall>p. Some p \<in> set es \<longrightarrow> p \<in> snd s2"
         "list_all2 (\<lambda>e k. (e = None \<longrightarrow> k = 0) \<and> (\<forall>p. e = Some p \<longrightarrow> code_depth g p k)) es ks"
      by blast
    have post: "Post g rk {q. Some q \<in> set (e # es)} c c s s2"
      by (rule Post_trans [OF s1(3) l(2)]) (use Some p in auto)
    have "snd s1 \<subseteq> snd s2" using l(2) by (simp add: Post_def)
    with s1(2) l(3) have mem: "\<forall>q. Some q \<in> set (e # es) \<longrightarrow> q \<in> snd s2"
      using Some by auto
    have "code_depth g p (get_reachability (fst s1 p))"
      using good1 s1(2) p(2) by (simp add: Good_def)
    with l(4) have vals: "list_all2 (\<lambda>e k. (e = None \<longrightarrow> k = 0) \<and> (\<forall>p. e = Some p \<longrightarrow> code_depth g p k))
        (e # es) (get_reachability (fst s1 p) # ks)"
      using Some by simp
    have "inward_loop visit (e # es) s = Some (s2, map ucast (get_reachability (fst s1 p) # ks))"
      using Some s1(1) l(1) by simp
    with post mem vals show ?thesis by blast
  qed
qed


lemma get_reachability_inner:
  "in_edges_m t \<noteq> [] \<Longrightarrow> get_reachability (t\<lparr>reachability_m := r\<rparr>) = r"
  by (simp add: get_reachability_def)

lemma graph_of_empty: "graph_of h n = [] \<longleftrightarrow> in_edges_m (h n) = []"
  by (simp add: graph_of_def get_inward_edges_def)

lemma set_reachability_correct:
  assumes d: "dag N g rk"
  shows "n \<in> N \<Longrightarrow> rk n < k \<Longrightarrow> rk n < b \<Longrightarrow> graph_of (h :: 'v heap) = g
         \<Longrightarrow> Good g rk h m b \<Longrightarrow>
         \<exists>s'. set_reachability k n (h, m) = Some s' \<and> n \<in> snd s'
              \<and> Post g rk {n} (Suc (rk n)) b (h, m) s'"
proof (induction k arbitrary: n h m b)
  case 0
  then show ?case by simp
next
  case (Suc k)
  show ?case
  proof (cases "n \<in> m")
    case True
    then show ?thesis using Suc.prems(5) by (simp add: Post_refl)
  next
    case False
    note unmarked = this
    show ?thesis
    proof (cases "in_edges_m (h n) = []")
      case True
      then have gn: "g n = []" using Suc.prems(4) graph_of_empty by blast
      have "code_depth g n (get_reachability (h n))"
        using True gn by (simp add: get_reachability_def code_depth.root)
      then have "Good g rk h (insert n m) b"
        using Suc.prems(5) gn by (auto simp: Good_def)
      then have "Post g rk {n} (Suc (rk n)) b (h, m) (h, insert n m)"
        by (auto simp: Post_def only_reach_refl intro: anc.base)
      then show ?thesis using True unmarked by simp
    next
      case False
      then have gn: "g n \<noteq> []" using Suc.prems(4) graph_of_empty by blast
      have edges: "get_inward_edges (h n) = g n" using Suc.prems(4) by (auto simp: graph_of_def)
      have v: "visit_ok N g rk (rk n)
                 (set_reachability k :: nat \<Rightarrow> 'v heap \<times> nat set \<Rightarrow> ('v heap \<times> nat set) option)"
        unfolding visit_ok_def
      proof (intro allI impI)
        fix p and h' :: "'v heap" and m'
        assume a: "p \<in> N \<and> rk p < rk n \<and> graph_of h' = g \<and> Good g rk h' m' (rk n)"
        then have "rk p < k" using Suc.prems(2) by simp
        with a Suc.IH [of p "rk n" h' m']
        show "\<exists>s'. set_reachability k p (h', m') = Some s' \<and> p \<in> snd s'
                \<and> Post g rk {p} (Suc (rk p)) (rk n) (h', m') s'"
          by blast
      qed
      have es: "\<forall>p. Some p \<in> set (g n) \<longrightarrow> p \<in> N \<and> rk p < rk n"
        using d Suc.prems(1) by (simp add: dag_def)
      have good0: "Good g rk h (insert n m) (rk n)"
        using Suc.prems(3,5) by (auto simp: Good_def)
      from inward_loop_correct [OF v es, of "(h, insert n m)"] Suc.prems(4) good0
      obtain s2 ks where
        l: "inward_loop (set_reachability k) (g n) (h, insert n m) = Some (s2, map ucast ks)"
           "Post g rk {p. Some p \<in> set (g n)} (rk n) (rk n) (h, insert n m) s2"
           "\<forall>p. Some p \<in> set (g n) \<longrightarrow> p \<in> snd s2"
           "list_all2 (\<lambda>e k. (e = None \<longrightarrow> k = 0) \<and> (\<forall>p. e = Some p \<longrightarrow> code_depth g p k)) (g n) ks"
        by auto
      let ?h2 = "fst s2" and ?m2 = "snd s2"
      let ?h' = "?h2(n := (?h2 n)\<lparr>reachability_m := scast (max_element (map ucast ks) + 1)\<rparr>)"
      have res: "set_reachability (Suc k) n (h, m) = Some (?h', ?m2)"
        using unmarked False edges l(1) by (simp add: case_prod_beta)
      have or2: "only_reach h ?h2" and sub2: "insert n m \<subseteq> ?m2"
        and new2: "\<forall>x \<in> ?m2 - insert n m. x \<in> anc g {p. Some p \<in> set (g n)} \<and> rk x < rk n"
        and same2: "\<forall>x. x \<notin> ?m2 - insert n m \<longrightarrow> ?h2 x = h x"
        and good2: "Good g rk ?h2 ?m2 (rk n)"
        using l(2) by (simp_all add: Post_def)
      have "only_reach ?h2 ?h'" by (simp add: only_reach_def)
      with or2 have or: "only_reach h ?h'" by (rule only_reach_trans)
      have new: "x \<in> anc g {n} \<and> rk x < Suc (rk n)" if "x \<in> ?m2 - m" for x
      proof (cases "x = n")
        case True
        then show ?thesis by (simp add: anc.base)
      next
        case False
        with that new2 have "x \<in> anc g {p. Some p \<in> set (g n)} \<and> rk x < rk n" by simp
        with anc_producers [of g n] show ?thesis by auto
      qed
      have same: "?h' x = h x" if "x \<notin> ?m2 - m" for x
      proof -
        from that sub2 unmarked have "x \<noteq> n" "x \<notin> ?m2 - insert n m" by auto
        with same2 show ?thesis by simp
      qed
      have e2: "in_edges_m (?h2 n) \<noteq> []"
        using False only_reach_edges [OF or2, of n] by simp
      have good: "Good g rk ?h' ?m2 b"
        unfolding Good_def
      proof (intro ballI impI)
        fix x assume x: "x \<in> ?m2" "rk x < b"
        show "code_depth g x (get_reachability (?h' x)) \<and> (\<forall>p. Some p \<in> set (g x) \<longrightarrow> p \<in> ?m2)"
        proof (cases "x = n")
          case True
          have "code_depth g n (scast (max_element (map ucast ks) + 1))"
            by (rule code_depth.inner [OF gn l(4)])
          with True e2 l(3) show ?thesis by (simp add: get_reachability_inner)
        next
          case False
          note xn = this
          show ?thesis
          proof (cases "x \<in> m")
            case True
            then have "?h' x = h x" using same [of x] by simp
            with Suc.prems(5) True x(2) sub2 show ?thesis by (auto simp: Good_def)
          next
            case False
            with x(1) xn new2 have "rk x < rk n" by simp
            with good2 x(1) xn show ?thesis by (simp add: Good_def)
          qed
        qed
      qed
      have "Post g rk {n} (Suc (rk n)) b (h, m) (?h', ?m2)"
        using or sub2 new same good by (simp add: Post_def)
      with res sub2 show ?thesis by auto
    qed
  qed
qed

lemma Good_antimono: "Good g rk h m b \<Longrightarrow> b' \<le> b \<Longrightarrow> Good g rk h m b'"
  by (auto simp: Good_def)

lemma set_reachability_top:
  assumes d: "dag N g rk" and n: "n \<in> N" "rk n < k"
    and h: "graph_of (h :: 'v heap) = g" "\<forall>b. Good g rk h m b"
  shows "\<exists>s'. set_reachability k n (h, m) = Some s' \<and> n \<in> snd s'
              \<and> (\<forall>b. Post g rk {n} k b (h, m) s')"
proof -
  from set_reachability_correct [OF d n(1,2), of "Suc (rk n)" h m] h
  obtain s' where s': "set_reachability k n (h, m) = Some s'" "n \<in> snd s'"
    by auto
  have "Post g rk {n} k b (h, m) s'" for b
  proof -
    let ?b = "max b (Suc (rk n))"
    from set_reachability_correct [OF d n(1,2), of ?b h m] h s'(1)
    have p: "Post g rk {n} (Suc (rk n)) ?b (h, m) s'" by auto
    then have "Good g rk (fst s') (snd s') b"
      using Good_antimono [of g rk "fst s'" "snd s'" ?b b] by (simp add: Post_def)
    moreover have "\<forall>x \<in> snd s' - m. x \<in> anc g {n} \<and> rk x < k"
    proof
      fix x assume "x \<in> snd s' - m"
      with p have "x \<in> anc g {n} \<and> rk x < Suc (rk n)" by (simp add: Post_def)
      with n(2) show "x \<in> anc g {n} \<and> rk x < k" by simp
    qed
    ultimately show ?thesis using p by (simp add: Post_def)
  qed
  with s' show ?thesis by blast
qed

lemma compute_loop_correct:
  assumes d: "dag N g rk"
    and ts: "\<forall>t. Some t \<in> set ts \<longrightarrow> t \<in> N \<and> rk t < k"
    and h: "graph_of (fst s) = g" "\<forall>b. Good g rk (fst s) (snd s) b"
  shows "\<exists>s'. compute_loop k ts (s :: 'v heap \<times> nat set) = Some s'
           \<and> (\<forall>t. Some t \<in> set ts \<longrightarrow> t \<in> snd s')
           \<and> (\<forall>b. Post g rk {t. Some t \<in> set ts} k b s s')"
  using ts h
proof (induction ts arbitrary: s)
  case Nil
  then show ?case by (simp add: Post_refl)
next
  case (Cons e ts)
  have ts': "\<forall>t. Some t \<in> set ts \<longrightarrow> t \<in> N \<and> rk t < k" using Cons.prems(1) by simp
  show ?case
  proof (cases e)
    case None
    from Cons.IH [OF ts' Cons.prems(2,3)] obtain s' where
      "compute_loop k ts s = Some s'" "\<forall>t. Some t \<in> set ts \<longrightarrow> t \<in> snd s'"
      "\<forall>b. Post g rk {t. Some t \<in> set ts} k b s s'"
      by blast
    moreover have "{t. Some t \<in> set (e # ts)} = {t. Some t \<in> set ts}" using None by auto
    ultimately show ?thesis using None by simp
  next
    case (Some t)
    have t: "t \<in> N" "rk t < k" using Cons.prems(1) Some by simp_all
    from set_reachability_top [OF d t, of "fst s" "snd s"] Cons.prems(2,3)
    obtain s1 where s1: "set_reachability k t s = Some s1" "t \<in> snd s1"
      "\<forall>b. Post g rk {t} k b s s1"
      by auto
    have g1: "graph_of (fst s1) = g"
      using s1(3) Cons.prems(2) only_reach_graph by (auto simp: Post_def)
    have good1: "\<forall>b. Good g rk (fst s1) (snd s1) b" using s1(3) by (simp add: Post_def)
    from Cons.IH [OF ts' g1 good1] obtain s2 where
      s2: "compute_loop k ts s1 = Some s2" "\<forall>t. Some t \<in> set ts \<longrightarrow> t \<in> snd s2"
      "\<forall>b. Post g rk {t. Some t \<in> set ts} k b s1 s2"
      by blast
    have post: "Post g rk {q. Some q \<in> set (e # ts)} k b s s2" for b
      by (rule Post_trans [of g rk "{t}" k b s s1 "{t. Some t \<in> set ts}" k b s2])
         (use s1(3) s2(3) Some in auto)
    have "snd s1 \<subseteq> snd s2" using s2(3) by (simp add: Post_def)
    with s1(2) s2(2) have "\<forall>q. Some q \<in> set (e # ts) \<longrightarrow> q \<in> snd s2" using Some by auto
    moreover have "compute_loop k (e # ts) s = Some s2" using Some s1(1) s2(1) by simp
    ultimately show ?thesis using post by blast
  qed
qed

lemma closed_anc:
  assumes "S \<subseteq> m" "\<forall>x\<in>m. \<forall>p. Some p \<in> set (g x) \<longrightarrow> p \<in> m"
  shows "anc g S \<subseteq> m"
proof
  fix x assume "x \<in> anc g S"
  then show "x \<in> m" using assms by (induction rule: anc.induct) auto
qed

lemma compute_reachability_correct:
  assumes d: "dag N (graph_of h) rk"
    and ts: "\<forall>t. Some t \<in> set ts \<longrightarrow> t \<in> N \<and> rk t < k"
  shows "\<exists>h'. compute_reachability k ts (h :: 'v heap) = Some h' \<and> only_reach h h'
           \<and> (\<forall>x \<in> anc (graph_of h) {t. Some t \<in> set ts}.
                 code_depth (graph_of h) x (get_reachability (h' x)))
           \<and> (\<forall>x. x \<notin> anc (graph_of h) {t. Some t \<in> set ts} \<longrightarrow> h' x = h x)"
proof -
  let ?g = "graph_of h" and ?T = "{t. Some t \<in> set ts}"
  have "\<forall>b. Good ?g rk h {} b" by (simp add: Good_def)
  with compute_loop_correct [OF d ts, of "(h, {})"] obtain s' where
    s': "compute_loop k ts (h, {}) = Some s'" "\<forall>t. Some t \<in> set ts \<longrightarrow> t \<in> snd s'"
    "\<forall>b. Post ?g rk ?T k b (h, {}) s'"
    by auto
  have good: "\<forall>b. Good ?g rk (fst s') (snd s') b" using s'(3) by (simp add: Post_def)
  have closed: "\<forall>x\<in>snd s'. \<forall>p. Some p \<in> set (?g x) \<longrightarrow> p \<in> snd s'"
  proof
    fix x assume "x \<in> snd s'"
    with good have "Good ?g rk (fst s') (snd s') (Suc (rk x))" by blast
    with \<open>x \<in> snd s'\<close> show "\<forall>p. Some p \<in> set (?g x) \<longrightarrow> p \<in> snd s'"
      by (simp add: Good_def)
  qed
  have sup: "anc ?g ?T \<subseteq> snd s'"
    by (rule closed_anc) (use s'(2) closed in auto)
  have sub: "snd s' \<subseteq> anc ?g ?T" using s'(3) by (auto simp: Post_def)
  have depth: "code_depth ?g x (get_reachability (fst s' x))" if "x \<in> anc ?g ?T" for x
  proof -
    from that sup have "x \<in> snd s'" by auto
    moreover from good have "Good ?g rk (fst s') (snd s') (Suc (rk x))" by blast
    ultimately show ?thesis by (simp add: Good_def)
  qed
  have same: "fst s' x = h x" if "x \<notin> anc ?g ?T" for x
    using that sub s'(3) by (auto simp: Post_def)
  have "only_reach h (fst s')" using s'(3) by (simp add: Post_def)
  moreover have "compute_reachability k ts h = Some (fst s')"
    by (simp add: compute_reachability_def s'(1))
  ultimately show ?thesis using depth same by blast
qed

lemma code_depth_unique:
  "code_depth g n k \<Longrightarrow> code_depth g n k' \<Longrightarrow> k = k'"
proof (induction arbitrary: k' rule: code_depth.induct)
  case (root n)
  from root.prems root.hyps show ?case by (cases rule: code_depth.cases) simp_all
next
  case (inner n ks)
  from inner.prems inner.hyps(1) obtain ks' where
    ks': "k' = scast (max_element (map ucast ks') + 1)"
    "list_all2 (\<lambda>e k. (e = None \<longrightarrow> k = 0) \<and> (\<forall>p. e = Some p \<longrightarrow> code_depth g p k)) (g n) ks'"
    by (cases rule: code_depth.cases) auto
  have "ks = ks'"
  proof (rule nth_equalityI)
    show len: "length ks = length ks'"
      using inner.IH ks'(2) by (simp add: list_all2_lengthD [symmetric])
    fix i assume i: "i < length ks"
    then have ig: "i < length (g n)" using inner.IH by (simp add: list_all2_lengthD)
    from inner.IH ig have a: "(g n ! i = None \<longrightarrow> ks ! i = 0)
       \<and> (\<forall>p. g n ! i = Some p \<longrightarrow> (\<forall>x. code_depth g p x \<longrightarrow> ks ! i = x))"
      by (auto simp: list_all2_conv_all_nth)
    from ks'(2) ig have b: "(g n ! i = None \<longrightarrow> ks' ! i = 0)
       \<and> (\<forall>p. g n ! i = Some p \<longrightarrow> code_depth g p (ks' ! i))"
      by (auto simp: list_all2_conv_all_nth)
    from a b show "ks ! i = ks' ! i" by (cases "g n ! i") auto
  qed
  with ks'(1) show ?case by simp
qed


lemma sint_of_nat32: "n < 2 ^ 31 \<Longrightarrow> sint (of_nat n :: 32 word) = int n"
proof -
  assume a: "n < 2 ^ 31"
  have "(of_nat n :: 32 word) = word_of_int (int n)" by simp
  then show ?thesis
    using a by (simp only: sint_sbintrunc') (simp add: signed_take_bit_int_eq_self)
qed

lemma sless_of_nat32:
  "a < 2 ^ 31 \<Longrightarrow> b < 2 ^ 31 \<Longrightarrow> (of_nat a :: 32 word) <s of_nat b \<longleftrightarrow> a < b"
  by (simp add: word_sless_alt sint_of_nat32)

lemma ucast_of_nat_64_32:
  "n < 2 ^ 31 \<Longrightarrow> (ucast (of_nat n :: 64 word) :: 32 word) = of_nat n"
  by (simp add: unsigned_of_nat take_bit_nat_eq_self)

lemma scast_of_nat_32_64:
  "n < 2 ^ 31 \<Longrightarrow> (scast (of_nat n :: 32 word) :: 64 word) = of_nat n"
  by (simp add: scast_eq sint_of_nat32)

lemma fold_largest_of_nat:
  assumes "a < 2 ^ 31" "\<forall>n \<in> set ns. n < 2 ^ 31"
  shows "fold (\<lambda>y largest. if largest <s y then y else largest) (map of_nat ns) (of_nat a :: 32 word)
           = of_nat (fold max ns a)"
  using assms
proof (induction ns arbitrary: a)
  case Nil
  then show ?case by simp
next
  case (Cons n ns)
  have n: "n < 2 ^ 31" "\<forall>n \<in> set ns. n < 2 ^ 31" using Cons.prems(2) by simp_all
  have "(if (of_nat a :: 32 word) <s of_nat n then of_nat n else of_nat a) = (of_nat (max n a) :: 32 word)"
    using sless_of_nat32 [OF Cons.prems(1) n(1)] by (simp add: max_def)
  moreover have "max n a < 2 ^ 31" using Cons.prems(1) n(1) by simp
  ultimately show ?case using Cons.IH [OF _ n(2), of "max n a"] by simp
qed

lemma max_element_of_nat:
  assumes "ns \<noteq> []" "\<forall>n \<in> set ns. n < 2 ^ 31"
  shows "max_element (map of_nat ns) = of_nat (Max (set ns))"
proof (cases ns)
  case Nil
  with assms(1) show ?thesis by simp
next
  case (Cons a list)
  have "Max (set (a # list)) = fold max list a" by (rule Max.set_eq_fold)
  with Cons assms(2) fold_largest_of_nat [of a list] show ?thesis by simp
qed

lemma producers_set: "p \<in> set (producers t) \<longleftrightarrow> Some p \<in> set (get_inward_edges t)"
  by (auto simp: producers_def split: option.splits)

lemma all_Some_map:
  "\<forall>e \<in> set es. \<exists>p. e = Some p \<Longrightarrow>
   es = map Some (concat (map (\<lambda>edge. case edge of None \<Rightarrow> [] | Some p \<Rightarrow> [p]) es))"
  by (induction es) auto

lemma spec_depth_dag:
  assumes "all_slots_attached N h" "is_spec_depth N h d"
  shows "dag N (graph_of h) d"
  unfolding dag_def
proof (intro ballI allI impI)
  fix n p assume n: "n \<in> N" and e: "Some p \<in> set (graph_of h n)"
  then have pp: "p \<in> set (producers (h n))" by (simp add: producers_set graph_of_def)
  then have ne: "producers (h n) \<noteq> []" by auto
  with assms(2) n have "d n = 1 + Max (d ` set (producers (h n)))"
    by (simp add: is_spec_depth_def)
  moreover have "d p \<le> Max (d ` set (producers (h n)))" using pp by simp
  moreover have "p \<in> N" using assms(1) n e by (auto simp: all_slots_attached_def graph_of_def)
  ultimately show "p \<in> N \<and> d p < d n" by simp
qed

lemma code_depth_spec:
  assumes wf: "all_slots_attached N h" and sd: "is_spec_depth N h d"
    and bd: "\<forall>n\<in>N. d n < 2 ^ 31"
  shows "code_depth (graph_of h) n k \<Longrightarrow> n \<in> N \<Longrightarrow> k = of_nat (d n)"
proof (induction rule: code_depth.induct)
  case (root n)
  then have "producers (h n) = []" by (simp add: producers_def graph_of_def)
  with sd root.prems show ?case by (simp add: is_spec_depth_def)
next
  case (inner n ks)
  let ?g = "graph_of h"
  let ?ps = "producers (h n)"
  have len: "length ks = length (?g n)" using inner.IH by (simp add: list_all2_lengthD)
  have att: "\<forall>e \<in> set (?g n). \<exists>p\<in>N. e = Some p"
    using wf inner.prems by (simp add: all_slots_attached_def graph_of_def)
  have g: "?g n = map Some ?ps"
    unfolding producers_def graph_of_def
    by (rule all_Some_map) (use att in \<open>auto simp: graph_of_def\<close>)
  have inN: "\<forall>p \<in> set ?ps. p \<in> N" using att g by auto
  have ks: "ks = map (\<lambda>p. of_nat (d p)) ?ps"
  proof (rule nth_equalityI)
    show "length ks = length (map (\<lambda>p. of_nat (d p)) ?ps)" using len g by (metis length_map)
    fix i assume i: "i < length ks"
    then have ip: "i < length ?ps" using len g by (metis length_map)
    then have gi: "?g n ! i = Some (?ps ! i)" using g by (metis nth_map)
    from ip inN have "?ps ! i \<in> N" by simp
    moreover from inner.IH i len gi have "?ps ! i \<in> N \<longrightarrow> ks ! i = of_nat (d (?ps ! i))"
      by (auto simp: list_all2_conv_all_nth)
    ultimately show "ks ! i = map (\<lambda>p. of_nat (d p)) ?ps ! i" using ip by simp
  qed
  have ne: "?ps \<noteq> []" using inner.hyps g by auto
  have small: "\<forall>x \<in> set (map d ?ps). x < 2 ^ 31" using inN bd by auto
  have "map ucast ks = map (of_nat :: nat \<Rightarrow> 32 word) (map d ?ps)"
    using small by (simp add: ks ucast_of_nat_64_32)
  then have "max_element (map ucast ks) = of_nat (Max (set (map d ?ps)))"
    using max_element_of_nat [of "map d ?ps"] ne small by simp
  moreover have dn: "d n = 1 + Max (d ` set ?ps)"
    using sd inner.prems ne by (simp add: is_spec_depth_def)
  ultimately have "max_element (map ucast ks) + 1 = (of_nat (d n) :: 32 word)" by simp
  moreover have "d n < 2 ^ 31" using bd inner.prems by simp
  ultimately show ?case by (simp add: scast_of_nat_32_64)
qed

text \<open>
  Where every input slot of every node has its edge and the depth of the specification
  stays below \<open>2\<^sup>3\<^sup>1\<close>, the pass assigns that depth to every submitted task and to every
  one of their ancestors.
\<close>

lemma reachability_is_depth_where_attached:
  assumes "all_slots_attached N h" and "is_spec_depth N h d" and "\<forall>n\<in>N. d n < 2 ^ 31"
    and "\<forall>t. Some t \<in> set ts \<longrightarrow> t \<in> N \<and> d t < fuel"
  shows "\<exists>h'. compute_reachability fuel ts h = Some h'
           \<and> (\<forall>n \<in> anc (graph_of h) {t. Some t \<in> set ts}.
                 get_reachability (h' n) = of_nat (d n))"
proof -
  let ?g = "graph_of h" and ?T = "{t. Some t \<in> set ts}"
  note dg = spec_depth_dag [OF assms(1,2)]
  from compute_reachability_correct [OF dg assms(4)] obtain h' where
    h': "compute_reachability fuel ts h = Some h'"
    "\<forall>x \<in> anc ?g ?T. code_depth ?g x (get_reachability (h' x))"
    by blast
  have inN: "anc ?g ?T \<subseteq> N"
  proof
    fix x assume "x \<in> anc ?g ?T"
    then show "x \<in> N"
      using assms(4) dg by (induction rule: anc.induct) (auto simp: dag_def)
  qed
  have "get_reachability (h' n) = of_nat (d n)" if "n \<in> anc ?g ?T" for n
    using code_depth_spec [OF assms(1,2,3), of n "get_reachability (h' n)"] h'(2) that inN
    by auto
  with h'(1) show ?thesis by auto
qed


text \<open>
  Claim C9: on a DAG, a second pass over the same set of tasks, in any order, leaves
  every node with the reachability the first pass gave it, and a first pass over the
  same set in another order gives every node the same reachability too.
\<close>

theorem C9_compute_reachability_idempotent:
  assumes "dag N (graph_of h) rk"
    and "\<forall>t. Some t \<in> set ts \<longrightarrow> t \<in> N \<and> rk t < fuel"
    and "set ts' = set ts"
  shows "\<exists>h1 h2 h3.
           compute_reachability fuel ts h = Some h1
         \<and> compute_reachability fuel ts' h1 = Some h2
         \<and> compute_reachability fuel ts' h = Some h3
         \<and> (\<forall>n. get_reachability (h2 n) = get_reachability (h1 n))
         \<and> (\<forall>n. get_reachability (h3 n) = get_reachability (h1 n))"
proof -
  let ?g = "graph_of h" and ?T = "{t. Some t \<in> set ts}"
  have T: "{t. Some t \<in> set ts'} = ?T" using assms(3) by simp
  have ts': "\<forall>t. Some t \<in> set ts' \<longrightarrow> t \<in> N \<and> rk t < fuel" using assms(2,3) by simp
  from compute_reachability_correct [OF assms(1,2)] obtain h1 where
    h1: "compute_reachability fuel ts h = Some h1" "only_reach h h1"
    "\<forall>x \<in> anc ?g ?T. code_depth ?g x (get_reachability (h1 x))"
    "\<forall>x. x \<notin> anc ?g ?T \<longrightarrow> h1 x = h x"
    by blast
  have g1: "graph_of h1 = ?g" using h1(2) by (rule only_reach_graph)
  from assms(1) have d1: "dag N (graph_of h1) rk" by (simp add: g1)
  from compute_reachability_correct [OF d1 ts'] obtain h2 where
    h2: "compute_reachability fuel ts' h1 = Some h2"
    "\<forall>x \<in> anc ?g ?T. code_depth ?g x (get_reachability (h2 x))"
    "\<forall>x. x \<notin> anc ?g ?T \<longrightarrow> h2 x = h1 x"
    unfolding g1 T by blast
  from compute_reachability_correct [OF assms(1) ts'] obtain h3 where
    h3: "compute_reachability fuel ts' h = Some h3"
    "\<forall>x \<in> anc ?g ?T. code_depth ?g x (get_reachability (h3 x))"
    "\<forall>x. x \<notin> anc ?g ?T \<longrightarrow> h3 x = h x"
    unfolding T by blast
  have "get_reachability (h2 n) = get_reachability (h1 n)" for n
    using h1(3) h2(2,3) code_depth_unique [of ?g n] by (cases "n \<in> anc ?g ?T") auto
  moreover have "get_reachability (h3 n) = get_reachability (h1 n)" for n
    using h1(3,4) h3(2,3) code_depth_unique [of ?g n] by (cases "n \<in> anc ?g ?T") auto
  ultimately show ?thesis using h1(1) h2(1) h3(1) by blast
qed

lemma less_five: "n < 5 \<Longrightarrow> n = 0 \<or> n = 1 \<or> n = 2 \<or> n = 3 \<or> n = (4 :: nat)"
  by arith

lemma S2_dag: "dag {0, 1, 2, 3, 4} (graph_of S2_heap) (\<lambda>n. n)"
  by (simp add: dag_def graph_of_def task_eval)

lemma S2_graph:
  "graph_of S2_heap 0 = []" "graph_of S2_heap 1 = [Some 0]" "graph_of S2_heap 2 = [Some 1]"
  "graph_of S2_heap 3 = [Some 2]" "graph_of S2_heap 4 = [Some 3]"
  "graph_of S2_heap (Suc 0) = [Some 0]"
  by (simp_all add: graph_of_def task_eval)

lemma S2_code_depth:
  "code_depth (graph_of S2_heap) 0 0" "code_depth (graph_of S2_heap) 1 1"
  "code_depth (graph_of S2_heap) 2 2" "code_depth (graph_of S2_heap) 3 3"
  "code_depth (graph_of S2_heap) 4 4"
proof -
  let ?g = "graph_of S2_heap"
  show c0: "code_depth ?g 0 0" by (rule code_depth.root) (simp add: S2_graph)
  from code_depth.inner [of ?g 1 "[0]"] c0 show c1: "code_depth ?g 1 1"
    by (simp add: S2_graph)
  from code_depth.inner [of ?g 2 "[1]"] c1 show c2: "code_depth ?g 2 2"
    by (simp add: S2_graph)
  from code_depth.inner [of ?g 3 "[2]"] c2 show c3: "code_depth ?g 3 3"
    by (simp add: S2_graph)
  from code_depth.inner [of ?g 4 "[3]"] c3 show "code_depth ?g 4 4"
    by (simp add: S2_graph)
qed

theorem C9_compute_reachability_idempotent_witness:
  "dag {0, 1, 2, 3, 4} (graph_of S2_heap) (\<lambda>n. n)
   \<and> (\<exists>h1 h2 h3.
         compute_reachability 5 [Some 0, Some 1, Some 2, Some 3, Some 4] S2_heap = Some h1
       \<and> compute_reachability 5 [Some 4, Some 2, Some 0, Some 3, Some 1] h1 = Some h2
       \<and> compute_reachability 5 [Some 4, Some 2, Some 0, Some 3, Some 1] S2_heap = Some h3
       \<and> (\<forall>n. get_reachability (h2 n) = get_reachability (h1 n))
       \<and> (\<forall>n. get_reachability (h3 n) = get_reachability (h1 n)))"
  using C9_compute_reachability_idempotent [OF S2_dag,
      of "[Some 0, Some 1, Some 2, Some 3, Some 4]" 5 "[Some 4, Some 2, Some 0, Some 3, Some 1]"]
    S2_dag
  by auto


subsection \<open>Scenario S2 on the executor\<close>

lemma inward_loop_mono:
  assumes "\<And>p s s'. visit p s = Some s' \<Longrightarrow> visit' p s = Some s'"
  shows "inward_loop visit es s = Some r \<Longrightarrow> inward_loop visit' es s = Some r"
proof (induction es arbitrary: s r)
  case Nil
  then show ?case by simp
next
  case (Cons e es)
  show ?case
  proof (cases e)
    case None
    with Cons show ?thesis by (auto split: option.splits)
  next
    case (Some p)
    with Cons.prems obtain s1 r1 where
      s1: "visit p s = Some s1" "inward_loop visit es s1 = Some r1"
      by (auto split: option.splits)
    from assms [OF s1(1)] Cons.IH [OF s1(2)] Cons.prems Some s1 show ?thesis
      by (auto split: option.splits)
  qed
qed

lemma set_reachability_mono:
  "set_reachability k n (s :: 'v heap \<times> nat set) = Some s' \<Longrightarrow> k \<le> k'
   \<Longrightarrow> set_reachability k' n s = Some s'"
proof (induction k arbitrary: n s s' k')
  case 0
  then show ?case by simp
next
  case (Suc k)
  from Suc.prems(2) obtain j where k': "k' = Suc j" "k \<le> j" by (cases k') auto
  have m: "set_reachability j p t = Some t'" if "set_reachability k p t = Some t'"
    for p and t t' :: "'v heap \<times> nat set"
    using Suc.IH [OF that k'(2)] .
  show ?case
  proof (cases "n \<in> snd s \<or> in_edges_m (fst s n) = []")
    case True
    with Suc.prems(1) show ?thesis by (auto simp: k' split: if_splits)
  next
    case False
    with Suc.prems(1) obtain r where
      r: "inward_loop (set_reachability k) (get_inward_edges (fst s n)) (fst s, insert n (snd s)) = Some r"
      by (auto split: option.splits)
    from inward_loop_mono [of "set_reachability k" "set_reachability j", OF m r]
    have "inward_loop (set_reachability j) (get_inward_edges (fst s n)) (fst s, insert n (snd s)) = Some r" .
    with r Suc.prems(1) False show ?thesis by (simp add: k')
  qed
qed

lemma compute_loop_mono:
  "compute_loop k ts s = Some s' \<Longrightarrow> k \<le> k' \<Longrightarrow> compute_loop k' ts s = Some s'"
proof (induction ts arbitrary: s)
  case Nil
  then show ?case by simp
next
  case (Cons e ts)
  show ?case
  proof (cases e)
    case None
    with Cons show ?thesis by simp
  next
    case (Some t)
    with Cons.prems(1) obtain s1 where
      s1: "set_reachability k t s = Some s1" "compute_loop k ts s1 = Some s'"
      by (auto split: option.splits)
    from set_reachability_mono [OF s1(1) Cons.prems(2)] Cons.IH [OF s1(2) Cons.prems(2)] Some
    show ?thesis by simp
  qed
qed

lemma compute_reachability_mono:
  "compute_reachability k ts h = Some h' \<Longrightarrow> k \<le> k' \<Longrightarrow> compute_reachability k' ts h = Some h'"
  using compute_loop_mono [of k ts "(h, {})" _ k']
  by (auto simp: compute_reachability_def)

lemma S2_pass:
  assumes "S2_submitted ts" "compute_reachability fuel (map Some ts) S2_heap = Some h1"
  shows "only_reach S2_heap h1 \<and> (\<forall>n<5. get_reachability (h1 n) = of_nat n)"
proof -
  let ?N = "{0, 1, 2, 3, 4} :: nat set"
  let ?k = "max fuel 5"
  have ts: "\<forall>t. Some t \<in> set (map Some ts) \<longrightarrow> t \<in> ?N \<and> (\<lambda>n. n) t < ?k"
    using assms(1) by (auto simp: S2_submitted_def)
  have T: "{t. Some t \<in> set (map Some ts)} = ?N"
    using assms(1) by (auto simp: S2_submitted_def)
  from compute_reachability_correct [OF S2_dag ts] obtain h' where
    h': "compute_reachability ?k (map Some ts) S2_heap = Some h'" "only_reach S2_heap h'"
    "\<forall>x \<in> anc (graph_of S2_heap) ?N. code_depth (graph_of S2_heap) x (get_reachability (h' x))"
    unfolding T by blast
  from compute_reachability_mono [OF assms(2), of ?k] h'(1) have eq: "h' = h1" by simp
  have "get_reachability (h1 n) = of_nat n" if "n < 5" for n
  proof -
    from that have n: "n \<in> ?N" by auto
    then have "n \<in> anc (graph_of S2_heap) ?N" by (rule anc.base)
    with h'(3) eq have "code_depth (graph_of S2_heap) n (get_reachability (h1 n))" by blast
    from less_five [OF that] this S2_code_depth show ?thesis
      by (elim disjE) (auto dest: code_depth_unique)
  qed
  with h'(2) eq show ?thesis by blast
qed

lemma S2_pass_returns:
  assumes "S2_submitted ts"
  shows "\<exists>h1. compute_reachability 5 (map Some ts) S2_heap = Some h1"
proof -
  have ts: "\<forall>t. Some t \<in> set (map Some ts) \<longrightarrow> t \<in> {0, 1, 2, 3, 4} \<and> (\<lambda>n. n) t < 5"
    using assms(1) by (auto simp: S2_submitted_def)
  from compute_reachability_correct [OF S2_dag ts] show ?thesis by blast
qed

lemma S2_sorted:
  assumes "S2_submitted ts" "\<forall>n<5. get_reachability (h1 n) = of_nat n" "std_sort_result h1 ts st"
  shows "st = [0, 1, 2, 3, 4]"
proof -
  from assms(3) have m: "mset st = mset ts"
    and sw: "sorted_wrt (\<lambda>a b. \<not> task_less h1 b a) st"
    by (simp_all add: std_sort_result_def)
  from m assms(1) have set: "set st = {0, 1, 2, 3, 4}" and dist: "distinct st"
    by (metis S2_submitted_def mset_eq_setD, metis S2_submitted_def mset_eq_imp_distinct_iff)
  have "sorted_wrt (\<le>) st"
  proof (rule sorted_wrt_mono_rel [OF _ sw])
    fix a b assume "a \<in> set st" "b \<in> set st" "\<not> task_less h1 b a"
    with set assms(2) show "a \<le> b" by (auto simp: task_less_def)
  qed
  then have "sorted st" by simp
  moreover have "sorted [0, 1, 2, 3, 4 :: nat]" "distinct [0, 1, 2, 3, 4 :: nat]" by simp_all
  moreover have "set st = set [0, 1, 2, 3, 4 :: nat]" using set by simp
  ultimately show ?thesis using dist by (metis sorted_distinct_set_unique)
qed

lemma S2_heap_fields:
  assumes "n < 5"
  shows "in_edges_m (S2_heap n) = (if n = 0 then [] else [(ValueT 0, Some (n - 1))])"
    and "callable_m (S2_heap n) = (if n = 0 then (\<lambda>args. 1) else (\<lambda>args. hd args + 1))"
    and "\<not> returns_void (S2_heap n)"
    and "\<not> is_retrievable (out_edge_m (S2_heap n))"
  using less_five [OF assms] by (auto simp: task_eval)

lemma S2_run_impl:
  assumes s: "S2_struct h1 h" and v: "S2_vals h" and t: "t < 5" and r: "ready h (h t)"
  shows "run_impl h (h t) = int t + 1"
proof (cases "t = 0")
  case True
  with s S2_heap_fields(1,2) [OF t] show ?thesis
    by (simp add: S2_struct_def run_impl_def integer_sequence_void_filter_def)
next
  case False
  with s S2_heap_fields(1,2) [OF t] have
    e: "in_edges_m (h t) = [(ValueT 0, Some (t - 1))]" and c: "callable_m (h t) = (\<lambda>args. hd args + 1)"
    by (simp_all add: S2_struct_def)
  from r e have "is_retrievable (out_edge_m (h (t - 1)))"
    by (simp add: ready_def get_inward_edges_def)
  with v t False have "get_data (out_edge_m (h (t - 1))) = int t"
    by (auto simp: S2_vals_def)
  with e c show ?thesis
    by (simp add: run_impl_def integer_sequence_void_filter_def get_inward_edge_value_def)
qed

lemma S2_run_task:
  assumes s: "S2_struct h1 h" and v: "S2_vals h" and t: "t < 5"
    and run: "Task_run t now1 now2 h = Some h'"
  shows "S2_struct h1 h' \<and> S2_vals h' \<and> is_retrievable (out_edge_m (h' t))
         \<and> (\<forall>n. is_retrievable (out_edge_m (h n)) \<longrightarrow> is_retrievable (out_edge_m (h' n)))"
proof -
  from run have r: "ready h (h t)" and h': "h' = h(t := completed now1 now2 h (h t))"
    by (auto simp: Task_run_closed split: if_splits)
  have nv: "\<not> returns_void (h t)" using s S2_heap_fields(3) [OF t] by (simp add: S2_struct_def)
  note ri = S2_run_impl [OF s v t r]
  have c: "in_edges_m (completed now1 now2 h (h t)) = in_edges_m (h t)"
    "callable_m (completed now1 now2 h (h t)) = callable_m (h t)"
    "returns_void (completed now1 now2 h (h t)) = returns_void (h t)"
    "reachability_m (completed now1 now2 h (h t)) = reachability_m (h t)"
    "is_retrievable (out_edge_m (completed now1 now2 h (h t)))"
    "get_data (out_edge_m (completed now1 now2 h (h t))) = int t + 1"
    "get_result (completed now1 now2 h (h t)) = int t + 1"
    using nv ri
    by (simp_all add: completed_def Let_def set_out_edge_data_def set_data_def
        set_data_void_def set_as_retrievable_def is_retrievable_def get_data_def get_result_def)
  have "S2_struct h1 h'" using s c(1-4) by (simp add: S2_struct_def h')
  moreover have "S2_vals h'" using v c(5-7) by (simp add: S2_vals_def h')
  moreover have "is_retrievable (out_edge_m (h' t))" using c(5) by (simp add: h')
  moreover have "\<forall>n. is_retrievable (out_edge_m (h n)) \<longrightarrow> is_retrievable (out_edge_m (h' n))"
    using c(5) by (simp add: h')
  ultimately show ?thesis by blast
qed


lemma set_update_keep:
  assumes "x \<in> set xs" "xs ! w \<noteq> x"
  shows "x \<in> set (xs[w := y])"
proof -
  from assms(1) obtain j where j: "j < length xs" "xs ! j = x" by (auto simp: in_set_conv_nth)
  with assms(2) have "j \<noteq> w" by auto
  with j have "(xs[w := y]) ! j = x" by simp
  with j(1) show ?thesis by (metis length_list_update nth_mem)
qed

lemma set_update_new:
  assumes "w < length xs" "x \<noteq> y"
  shows "x \<in> set (xs[w := y]) \<longleftrightarrow> x \<in> set xs \<and> (\<exists>j<length xs. j \<noteq> w \<and> xs ! j = x)"
proof
  assume "x \<in> set (xs[w := y])"
  then obtain j where j: "j < length xs" "(xs[w := y]) ! j = x"
    by (auto simp: in_set_conv_nth)
  with assms(2) have "j \<noteq> w" by (auto simp: nth_list_update)
  with j have "xs ! j = x" by simp
  with j(1) \<open>j \<noteq> w\<close> show "x \<in> set xs \<and> (\<exists>j<length xs. j \<noteq> w \<and> xs ! j = x)"
    by (metis nth_mem)
next
  assume "x \<in> set xs \<and> (\<exists>j<length xs. j \<noteq> w \<and> xs ! j = x)"
  then obtain j where "j < length xs" "j \<noteq> w" "xs ! j = x" by blast
  then have "(xs[w := y]) ! j = x" "j < length (xs[w := y])" by simp_all
  then show "x \<in> set (xs[w := y])" by (metis nth_mem)
qed

lemma drop_five_ne:
  assumes "drop k [0, 1, 2, 3, 4 :: nat] \<noteq> []"
  shows "k < 5 \<and> hd (drop k [0, 1, 2, 3, 4 :: nat]) = k
         \<and> tl (drop k [0, 1, 2, 3, 4 :: nat]) = drop (Suc k) [0, 1, 2, 3, 4]"
proof -
  from assms have "k < 5" by simp
  from less_five [OF this] show ?thesis by (elim disjE) (simp_all add: numeral_eq_Suc)
qed

lemma wait_mtx_held_update:
  assumes "wait_mtx_held p" "w < length (workers_m p)"
    "decremented y = decremented (workers_m p ! w)"
  shows "wait_mtx_held (p\<lparr>workers_m := (workers_m p)[w := y], tasks_m := q\<rparr>)"
  using assms by (auto simp: wait_mtx_held_def nth_list_update)

lemma wait_mtx_held_lock:
  assumes "wait_mtx_held p" "w < length (workers_m p)" "wait_mtx_m p = None"
  shows "wait_mtx_held (p\<lparr>wait_mtx_m := Some w, active_task_count_m := c,
                          workers_m := (workers_m p)[w := Decremented t]\<rparr>)"
  using assms by (auto simp: wait_mtx_held_def nth_list_update)

lemma wait_mtx_held_unlock:
  assumes "wait_mtx_held p" "w < length (workers_m p)" "wait_mtx_m p = Some w"
  shows "wait_mtx_held (p\<lparr>on_complete_calls := c, wait_mtx_m := None,
                          workers_m := (workers_m p)[w := NoTask]\<rparr>)"
  using assms by (auto simp: wait_mtx_held_def nth_list_update)

lemma S2_inv_step:
  assumes inv: "S2_inv h1 s" and st: "worker_step s s'"
  shows "S2_inv h1 s'"
  using st inv
proof (cases rule: worker_step.cases)
  case (pop w p h)
  from inv pop(1) obtain k where k: "k \<le> 5" "tasks_m p = drop k [0, 1, 2, 3, 4]"
    "\<forall>t. Popped t \<in> set (workers_m p) \<longrightarrow> t < k"
    "\<forall>n<k. is_retrievable (out_edge_m (h n)) \<or> Popped n \<in> set (workers_m p)"
    and b: "balanced p" and m: "wait_mtx_held p" and sv: "S2_struct h1 h" "S2_vals h"
    by (auto simp: S2_inv_def)
  from pop(5) k(2) drop_five_ne [of k] have
    d: "k < 5" "hd (tasks_m p) = k" "tl (tasks_m p) = drop (Suc k) [0, 1, 2, 3, 4]" by simp_all
  let ?p' = "execute_task_pop w p"
  have eq: "?p' = p\<lparr>workers_m := (workers_m p)[w := Popped k], tasks_m := drop (Suc k) [0, 1, 2, 3, 4]\<rparr>"
    using pop(3,4,5) d by (simp add: execute_task_pop_def)
  have mem: "Popped t \<in> set (workers_m ?p') \<longleftrightarrow> t = k \<or> Popped t \<in> set (workers_m p)" for t
  proof (cases "t = k")
    case True
    then show ?thesis using pop(3) by (simp add: eq set_update_memI)
  next
    case False
    then have "Popped t \<in> set ((workers_m p)[w := Popped k]) \<longleftrightarrow> Popped t \<in> set (workers_m p)"
      using set_update_new [OF pop(3), of "Popped t" "Popped k"] pop(4)
      by (auto simp: in_set_conv_nth)
    with False show ?thesis by (simp add: eq)
  qed
  have "balanced ?p'" using worker_step_balanced [of "Pop w" p] b by simp
  moreover have "wait_mtx_held ?p'"
    unfolding eq by (rule wait_mtx_held_update [OF m pop(3)]) (simp add: pop(4))
  moreover have "\<forall>t. Popped t \<in> set (workers_m ?p') \<longrightarrow> t < Suc k"
    using k(3) mem by auto
  moreover have "\<forall>n<Suc k. is_retrievable (out_edge_m (h n)) \<or> Popped n \<in> set (workers_m ?p')"
    using k(4) mem by (auto simp: less_Suc_eq)
  moreover have "tasks_m ?p' = drop (Suc k) [0, 1, 2, 3, 4]" by (simp add: eq)
  ultimately show ?thesis
    using d(1) sv pop(2) unfolding S2_inv_def
    by (auto intro!: exI [of _ "Suc k"])
next
  case (call w p task now1 now2 h h')
  from inv call(1) obtain k where k: "k \<le> 5" "tasks_m p = drop k [0, 1, 2, 3, 4]"
    "\<forall>t. Popped t \<in> set (workers_m p) \<longrightarrow> t < k"
    "\<forall>n<k. is_retrievable (out_edge_m (h n)) \<or> Popped n \<in> set (workers_m p)"
    and b: "balanced p" and m: "wait_mtx_held p" and sv: "S2_struct h1 h" "S2_vals h"
    by (auto simp: S2_inv_def)
  have "Popped task \<in> set (workers_m p)" using call(3,4) by (metis nth_mem)
  with k(1,3) have t: "task < k" "task < 5" by auto
  note rt = S2_run_task [OF sv t(2) call(5)]
  let ?p' = "execute_task_call w p"
  have eq: "?p' = p\<lparr>workers_m := (workers_m p)[w := Returned task], tasks_m := tasks_m p\<rparr>"
    using call(3,4) by (simp add: execute_task_call_def)
  have "balanced ?p'" using worker_step_balanced [of "Call w" p] b by simp
  moreover have "wait_mtx_held ?p'"
    unfolding eq by (rule wait_mtx_held_update [OF m call(3)]) (simp add: call(4))
  moreover have "\<forall>t. Popped t \<in> set (workers_m ?p') \<longrightarrow> t < k"
  proof (intro allI impI)
    fix t assume "Popped t \<in> set (workers_m ?p')"
    then have "Popped t \<in> set (workers_m p)"
      using set_update_new [OF call(3), of "Popped t" "Returned task"] by (simp add: eq)
    with k(3) show "t < k" by simp
  qed
  moreover have "\<forall>n<k. is_retrievable (out_edge_m (h' n)) \<or> Popped n \<in> set (workers_m ?p')"
  proof (intro allI impI)
    fix n assume n: "n < k"
    show "is_retrievable (out_edge_m (h' n)) \<or> Popped n \<in> set (workers_m ?p')"
    proof (cases "n = task")
      case True
      with rt show ?thesis by simp
    next
      case False
      from k(4) n have "is_retrievable (out_edge_m (h n)) \<or> Popped n \<in> set (workers_m p)" by simp
      then show ?thesis
      proof
        assume "is_retrievable (out_edge_m (h n))"
        with rt show ?thesis by simp
      next
        assume "Popped n \<in> set (workers_m p)"
        from set_update_keep [OF this, of w "Returned task"] call(4) False
        show ?thesis by (simp add: eq)
      qed
    qed
  qed
  moreover have "tasks_m ?p' = tasks_m p" by (simp add: eq)
  ultimately show ?thesis
    using k(1,2) rt call(2) unfolding S2_inv_def
    by (auto intro!: exI [of _ k])
next
  case (fetch_sub w p task h)
  from inv fetch_sub(1) obtain k where k: "k \<le> 5" "tasks_m p = drop k [0, 1, 2, 3, 4]"
    "\<forall>t. Popped t \<in> set (workers_m p) \<longrightarrow> t < k"
    "\<forall>n<k. is_retrievable (out_edge_m (h n)) \<or> Popped n \<in> set (workers_m p)"
    and b: "balanced p" and m: "wait_mtx_held p" and sv: "S2_struct h1 h" "S2_vals h"
    by (auto simp: S2_inv_def)
  let ?p' = "execute_task_fetch_sub w p"
  have eq: "?p' = p\<lparr>wait_mtx_m := Some w, active_task_count_m := active_task_count_m p - 1,
                     workers_m := (workers_m p)[w := Decremented task]\<rparr>"
    using fetch_sub(3,4,5) by (simp add: execute_task_fetch_sub_def)
  have mem: "Popped t \<in> set (workers_m ?p') \<longleftrightarrow> Popped t \<in> set (workers_m p)" for t
    using set_update_new [OF fetch_sub(3), of "Popped t" "Decremented task"] fetch_sub(4)
    by (auto simp: eq in_set_conv_nth)
  have "balanced ?p'" using worker_step_balanced [of "FetchSub w" p] b by simp
  moreover have "wait_mtx_held ?p'"
    unfolding eq by (rule wait_mtx_held_lock [OF m fetch_sub(3,5)])
  moreover have "tasks_m ?p' = tasks_m p" by (simp add: eq)
  moreover have "\<forall>t. Popped t \<in> set (workers_m ?p') \<longrightarrow> t < k"
    using k(3) by (simp add: mem)
  moreover have "\<forall>n<k. is_retrievable (out_edge_m (h n)) \<or> Popped n \<in> set (workers_m ?p')"
    using k(4) by (simp add: mem)
  ultimately show ?thesis
    using k(1,2) sv fetch_sub(2) unfolding S2_inv_def
    by (auto intro!: exI [of _ k])
next
  case (load w p task h)
  from inv load(1) obtain k where k: "k \<le> 5" "tasks_m p = drop k [0, 1, 2, 3, 4]"
    "\<forall>t. Popped t \<in> set (workers_m p) \<longrightarrow> t < k"
    "\<forall>n<k. is_retrievable (out_edge_m (h n)) \<or> Popped n \<in> set (workers_m p)"
    and b: "balanced p" and m: "wait_mtx_held p" and sv: "S2_struct h1 h" "S2_vals h"
    by (auto simp: S2_inv_def)
  let ?p' = "execute_task_load w p"
  have eq: "?p' = p\<lparr>on_complete_calls := on_complete_calls p
                        + (if active_task_count_m p = 0 \<and> on_complete_m p then 1 else 0),
                     wait_mtx_m := None, workers_m := (workers_m p)[w := NoTask]\<rparr>"
    using load(3,4,5) by (simp add: execute_task_load_def Let_def)
  have mem: "Popped t \<in> set (workers_m ?p') \<longleftrightarrow> Popped t \<in> set (workers_m p)" for t
    using set_update_new [OF load(3), of "Popped t" NoTask] load(4)
    by (auto simp: eq in_set_conv_nth)
  have "balanced ?p'" using worker_step_balanced [of "Load w" p] b by simp
  moreover have "wait_mtx_held ?p'"
    unfolding eq by (rule wait_mtx_held_unlock [OF m load(3,5)])
  moreover have "tasks_m ?p' = tasks_m p" by (simp add: eq)
  moreover have "\<forall>t. Popped t \<in> set (workers_m ?p') \<longrightarrow> t < k"
    using k(3) by (simp add: mem)
  moreover have "\<forall>n<k. is_retrievable (out_edge_m (h n)) \<or> Popped n \<in> set (workers_m ?p')"
    using k(4) by (simp add: mem)
  ultimately show ?thesis
    using k(1,2) sv load(2) unfolding S2_inv_def
    by (auto intro!: exI [of _ k])
qed

lemma only_reach_fields:
  assumes "only_reach h h'"
  shows "in_edges_m (h' x) = in_edges_m (h x)" "callable_m (h' x) = callable_m (h x)"
    "returns_void (h' x) = returns_void (h x)" "out_edge_m (h' x) = out_edge_m (h x)"
    "result_m (h' x) = result_m (h x)" "state_m (h' x) = state_m (h x)"
proof -
  from assms have e: "h' x = (h x)\<lparr>reachability_m := reachability_m (h' x)\<rparr>"
    by (simp add: only_reach_def)
  show "in_edges_m (h' x) = in_edges_m (h x)" by (subst e) simp
  show "callable_m (h' x) = callable_m (h x)" by (subst e) simp
  show "returns_void (h' x) = returns_void (h x)" by (subst e) simp
  show "out_edge_m (h' x) = out_edge_m (h x)" by (subst e) simp
  show "result_m (h' x) = result_m (h x)" by (subst e) simp
  show "state_m (h' x) = state_m (h x)" by (subst e) simp
qed

lemma submit_all_five:
  "ThreadPool_run (submit_all [0, 1, 2, 3, 4] (ThreadPool_new hw False))
     = \<lparr>tasks_m = [0, 1, 2, 3, 4], workers_m = replicate hw NoTask, wait_mtx_m = None,
        on_complete_m = False,
        on_complete_calls = 0, active_task_count_m = 5, thread_count_m = hw,
        is_shutting_down_m = False\<rparr>"
  by (simp add: submit_all_def add_task_def ThreadPool_new_def ThreadPool_run_def)

lemma S2_inv_initial:
  assumes "only_reach S2_heap h1"
  shows "S2_inv h1 (ThreadPool_run (submit_all [0, 1, 2, 3, 4] (ThreadPool_new hw False)), h1)"
proof -
  note f = only_reach_fields [OF assms]
  have "S2_struct h1 h1" by (simp add: S2_struct_def f)
  moreover have "S2_vals h1"
    using S2_heap_fields(4) by (simp add: S2_vals_def f)
  ultimately show ?thesis
    unfolding S2_inv_def submit_all_five
    by (auto simp: balanced_def in_flight_def wait_mtx_held_def intro!: exI [of _ 0])
qed

lemma S2_inv_reach:
  assumes "worker_step\<^sup>*\<^sup>* s s'" "S2_inv h1 s"
  shows "S2_inv h1 s'"
  using assms by (induction rule: rtranclp_induct) (auto intro: S2_inv_step)

lemma popped_uncounted:
  assumes "in_flight p = 0"
  shows "Popped t \<notin> set (workers_m p)" "Returned t \<notin> set (workers_m p)"
  using assms by (auto simp: in_flight_def filter_empty_conv)

lemma S2_inv_idle:
  assumes inv: "S2_inv h1 (p, h)" and idle: "is_idle p"
    and h1: "only_reach S2_heap h1" "\<forall>n<5. get_reachability (h1 n) = of_nat n"
  shows "get_result (h 4) = 5" and "\<forall>n<5. get_reachability (h n) = of_nat n"
proof -
  from inv obtain k where k: "k \<le> 5" "tasks_m p = drop k [0, 1, 2, 3, 4]"
    "\<forall>n<k. is_retrievable (out_edge_m (h n)) \<or> Popped n \<in> set (workers_m p)"
    and b: "balanced p" and sv: "S2_struct h1 h" "S2_vals h"
    by (auto simp: S2_inv_def)
  from balanced_idle [OF b idle] have q: "tasks_m p = []" "in_flight p = 0" by simp_all
  from q(1) k(1,2) have "k = 5" by simp
  with popped_uncounted(1) [OF q(2)] have "is_retrievable (out_edge_m (h 4))" using k(3) by auto
  with sv(2) show "get_result (h 4) = 5" by (auto simp: S2_vals_def)
  show "\<forall>n<5. get_reachability (h n) = of_nat n"
  proof (intro allI impI)
    fix n :: nat assume "n < 5"
    have "get_reachability (h n) = get_reachability (h1 n)"
      using sv(1) only_reach_fields(1) [OF h1(1), of n]
      by (simp add: get_reachability_def S2_struct_def)
    with h1(2) \<open>n < 5\<close> show "get_reachability (h n) = of_nat n" by simp
  qed
qed

lemma S2_progress:
  assumes inv: "S2_inv h1 (p, h)" and busy: "ThreadPool_wait p = None"
    and ws: "workers_m p \<noteq> []"
  shows "\<exists>s'. worker_step (p, h) s'"
proof -
  from inv obtain k where k: "k \<le> 5" "tasks_m p = drop k [0, 1, 2, 3, 4]"
    "\<forall>t. Popped t \<in> set (workers_m p) \<longrightarrow> t < k"
    "\<forall>n<k. is_retrievable (out_edge_m (h n)) \<or> Popped n \<in> set (workers_m p)"
    and b: "balanced p" and m: "wait_mtx_held p" and sv: "S2_struct h1 h" "S2_vals h"
    by (auto simp: S2_inv_def)
  show ?thesis
  proof (cases "wait_mtx_m p")
    case (Some w)
    from m have "wait_mtx_m p = Some w \<longleftrightarrow> w < length (workers_m p) \<and> decremented (workers_m p ! w)"
      unfolding wait_mtx_held_def by (rule spec)
    with Some have "w < length (workers_m p)" "decremented (workers_m p ! w)"
      by simp_all
    then obtain t where "workers_m p ! w = Decremented t"
      by (cases "workers_m p ! w") simp_all
    from worker_step.load [OF \<open>w < length (workers_m p)\<close> this Some] show ?thesis ..
  next
    case None
    with busy have ni: "\<not> is_idle p" by (simp add: ThreadPool_wait_def split: if_splits)
    from None m have nodec: "\<forall>w<length (workers_m p). \<not> decremented (workers_m p ! w)"
      by (simp add: wait_mtx_held_def)
    show ?thesis
    proof (cases "\<exists>t. Returned t \<in> set (workers_m p)")
      case True
      then obtain t w where "w < length (workers_m p)" "workers_m p ! w = Returned t"
        by (auto simp: in_set_conv_nth)
      from worker_step.fetch_sub [OF this None] show ?thesis ..
    next
      case False
      note noret = this
      let ?F = "{t. Popped t \<in> set (workers_m p)}"
      show ?thesis
      proof (cases "?F = {}")
        case True
        have all: "x = NoTask" if "x \<in> set (workers_m p)" for x
        proof (cases x)
          case (Popped t)
          with that True show ?thesis by auto
        next
          case (Returned t)
          with that noret show ?thesis by auto
        next
          case (Decremented t)
          from that obtain w where "w < length (workers_m p)" "workers_m p ! w = x"
            by (auto simp: in_set_conv_nth)
          with nodec Decremented show ?thesis by auto
        qed simp
        have "\<not> uncounted x" if "x \<in> set (workers_m p)" for x
          using all [OF that] by simp
        then have "in_flight p = 0" by (simp add: in_flight_def filter_empty_conv)
        with b ni have "tasks_m p \<noteq> []"
          by (auto simp: balanced_def is_idle_def unat_eq_zero)
        moreover from ws all have "0 < length (workers_m p)" "workers_m p ! 0 = NoTask"
          by (simp_all add: nth_mem)
        ultimately have "worker_step (p, h) (execute_task_pop 0 p, h)"
          by (intro worker_step.pop) simp_all
        then show ?thesis ..
      next
        case False
        have fin: "finite ?F"
          by (rule finite_subset [of _ "{..<k}"]) (use k(3) in auto)
        let ?t = "Min ?F"
        from Min_in [OF fin False] have tF: "Popped ?t \<in> set (workers_m p)" by simp
        then obtain w where w: "w < length (workers_m p)" "workers_m p ! w = Popped ?t"
          by (auto simp: in_set_conv_nth)
        from tF k(1,3) have t: "?t < k" "?t < 5" by auto
        have "ready h (h ?t)"
        proof (cases "?t = 0")
          case True
          with sv(1) S2_heap_fields(1) [OF t(2)] show ?thesis
            by (simp add: ready_def get_inward_edges_def S2_struct_def)
        next
          case False
          with sv(1) S2_heap_fields(1) [OF t(2)] have
            e: "in_edges_m (h ?t) = [(ValueT 0, Some (?t - 1))]"
            by (simp add: S2_struct_def)
          have "Popped (?t - 1) \<notin> set (workers_m p)"
          proof
            assume "Popped (?t - 1) \<in> set (workers_m p)"
            then have "?t - 1 \<in> ?F" by simp
            from Min_le [OF fin this] False show False by simp
          qed
          moreover from t(1) have "?t - 1 < k" by simp
          ultimately have "is_retrievable (out_edge_m (h (?t - 1)))" using k(4) by blast
          with e show ?thesis by (simp add: ready_def get_inward_edges_def)
        qed
        then have "Task_run ?t 0 0 h = Some (h(?t := completed 0 0 h (h ?t)))"
          by (simp add: Task_run_closed)
        from worker_step.call [OF w this] show ?thesis ..
      qed
    qed
  qed
qed

lemma sum_list_map_update:
  "i < length xs \<Longrightarrow>
   sum_list (map f (xs[i := y])) + f (xs ! i) = sum_list (map f xs) + (f y :: nat)"
proof (induction xs arbitrary: i)
  case Nil
  then show ?case by simp
next
  case (Cons x xs)
  show ?case
  proof (cases i)
    case 0
    then show ?thesis by simp
  next
    case (Suc j)
    with Cons.prems have "j < length xs" by simp
    from Cons.IH [OF this] show ?thesis by (simp add: Suc)
  qed
qed

lemma worker_step_measure:
  assumes "worker_step (p, h) (p', h')"
  shows "4 * length (tasks_m p') + sum_list (map steps_left (workers_m p'))
           < 4 * length (tasks_m p) + sum_list (map steps_left (workers_m p))
         \<and> length (workers_m p') = length (workers_m p)"
  using assms
proof (cases rule: worker_step.cases)
  case (pop w)
  then have eq: "p' = p\<lparr>workers_m := (workers_m p)[w := Popped (hd (tasks_m p))],
                        tasks_m := tl (tasks_m p)\<rparr>"
    by (simp add: execute_task_pop_def)
  from sum_list_map_update [OF pop(3), of steps_left "Popped (hd (tasks_m p))"] pop(4,5)
  show ?thesis by (cases "tasks_m p") (simp_all add: eq)
next
  case (call w task now1 now2)
  then have eq: "p' = p\<lparr>workers_m := (workers_m p)[w := Returned task]\<rparr>"
    by (simp add: execute_task_call_def)
  from sum_list_map_update [OF call(2), of steps_left "Returned task"] call(3)
  show ?thesis by (simp add: eq)
next
  case (fetch_sub w task)
  then have eq: "p' = p\<lparr>wait_mtx_m := Some w, active_task_count_m := active_task_count_m p - 1,
                        workers_m := (workers_m p)[w := Decremented task]\<rparr>"
    by (simp add: execute_task_fetch_sub_def)
  from sum_list_map_update [OF fetch_sub(3), of steps_left "Decremented task"] fetch_sub(4)
  show ?thesis by (simp add: eq)
next
  case (load w task)
  then have eq: "p' = p\<lparr>on_complete_calls := on_complete_calls p
                          + (if active_task_count_m p = 0 \<and> on_complete_m p then 1 else 0),
                        wait_mtx_m := None, workers_m := (workers_m p)[w := NoTask]\<rparr>"
    by (simp add: execute_task_load_def Let_def)
  from sum_list_map_update [OF load(3), of steps_left NoTask] load(4)
  show ?thesis by (simp add: eq)
qed

lemma S2_wait_returns:
  assumes "S2_inv h1 s" "workers_m (fst s) \<noteq> []"
  shows "\<exists>s'. worker_step\<^sup>*\<^sup>* s s' \<and> ThreadPool_wait (fst s') = Some ()"
  using assms
proof (induction "4 * length (tasks_m (fst s)) + sum_list (map steps_left (workers_m (fst s)))"
    arbitrary: s rule: less_induct)
  case less
  show ?case
  proof (cases "ThreadPool_wait (fst s)")
    case (Some u)
    then have "worker_step\<^sup>*\<^sup>* s s \<and> ThreadPool_wait (fst s) = Some ()" by simp
    then show ?thesis ..
  next
    case None
    from S2_progress [of h1 "fst s" "snd s"] less.prems None obtain s1 where
      s1: "worker_step s s1" by auto
    from worker_step_measure [of "fst s" "snd s" "fst s1" "snd s1"] s1 have
      m: "4 * length (tasks_m (fst s1)) + sum_list (map steps_left (workers_m (fst s1)))
            < 4 * length (tasks_m (fst s)) + sum_list (map steps_left (workers_m (fst s)))"
      "length (workers_m (fst s1)) = length (workers_m (fst s))"
      by simp_all
    from m(2) less.prems(2) have "workers_m (fst s1) \<noteq> []" by auto
    from less.hyps [OF m(1) S2_inv_step [OF less.prems(1) s1] this] obtain s' where
      "worker_step\<^sup>*\<^sup>* s1 s'" "ThreadPool_wait (fst s') = Some ()" by blast
    with s1 show ?thesis by (meson converse_rtranclp_into_rtranclp)
  qed
qed

lemma fold_Executor_add_task:
  "fold Executor_add_task ts ex = ex\<lparr>tasks_to_run_m := tasks_to_run_m ex @ ts\<rparr>"
  by (induction ts arbitrary: ex) (simp_all add: Executor_add_task_def)

lemma S2_executor: "fold Executor_add_task ts ThreadPoolExecutor_new = \<lparr>pool_m = None, tasks_to_run_m = ts\<rparr>"
  by (simp add: fold_Executor_add_task ThreadPoolExecutor_new_def)

lemma worker_steps_workers:
  assumes "worker_step\<^sup>*\<^sup>* s s'"
  shows "length (workers_m (fst s')) = length (workers_m (fst s))"
  using assms
proof (induction rule: rtranclp_induct)
  case base
  show ?case ..
next
  case (step y z)
  from worker_step_measure [of "fst y" "snd y" "fst z" "snd z"] step show ?case by simp
qed

lemma S2_run_outcome:
  assumes sub: "S2_submitted ts"
    and run: "ThreadPoolExecutor_run hw (\<lparr>pool_m = None, tasks_to_run_m = ts\<rparr>, S2_heap) (ex, h)"
  shows "pool_m ex = Some (ThreadPool_run (submit_all [0, 1, 2, 3, 4] (ThreadPool_new hw False)))
         \<and> only_reach S2_heap h \<and> (\<forall>n<5. get_reachability (h n) = of_nat n)"
  using run
proof (cases rule: ThreadPoolExecutor_run.cases)
  case (1 pool fuel sorted_tasks)
  from 1(2) have pool: "pool = ThreadPool_new hw False" by simp
  from 1(3) have c: "compute_reachability fuel (map Some ts) S2_heap = Some h" by simp
  note p = S2_pass [OF sub c]
  from 1(4) have "std_sort_result h ts sorted_tasks" by simp
  from S2_sorted [OF sub conjunct2 [OF p] this] have "sorted_tasks = [0, 1, 2, 3, 4]" .
  with 1(1) pool p show ?thesis by simp
qed

lemma S2_run_exists:
  assumes sub: "S2_submitted ts"
  shows "\<exists>ex h. ThreadPoolExecutor_run hw (\<lparr>pool_m = None, tasks_to_run_m = ts\<rparr>, S2_heap) (ex, h)"
proof -
  from S2_pass_returns [OF sub] obtain h1 where
    c: "compute_reachability 5 (map Some ts) S2_heap = Some h1" ..
  from S2_pass [OF sub c] have r: "\<forall>n<5. get_reachability (h1 n) = of_nat n" ..
  have "distinct [0, 1, 2, 3, 4 :: nat]" "distinct ts" "set [0, 1, 2, 3, 4] = set ts"
    using sub by (simp_all add: S2_submitted_def)
  then have "mset [0, 1, 2, 3, 4] = mset ts"
    by (simp only: set_eq_iff_mset_eq_distinct)
  moreover have "sorted_wrt (\<lambda>a b. \<not> task_less h1 b a) [0, 1, 2, 3, 4]"
    using r by (simp add: task_less_def)
  ultimately have s: "std_sort_result h1 ts [0, 1, 2, 3, 4]" by (simp add: std_sort_result_def)
  have "ThreadPool_new hw False
          = (case pool_m \<lparr>pool_m = None, tasks_to_run_m = ts\<rparr> of
               None \<Rightarrow> ThreadPool_new hw False | Some p \<Rightarrow> p)" by simp
  from ThreadPoolExecutor_run.intros [OF this, of fuel S2_heap h1 "[0, 1, 2, 3, 4]" for fuel] c s
  show ?thesis by auto
qed

text \<open>
  Claim C4: let the five tasks of S2 be added to a new executor, in any order. Then
  \<^verbatim>\<open>run()\<close> has an outcome, and after every outcome the reachabilities of the tasks are
  0, 1, 2, 3, 4; whatever the workers do from there, once \<^verbatim>\<open>wait()\<close> returns, and whenever
  the counter is zero, the result of the last task is 5 and the reachabilities are as
  before; and with at least one worker,
  from every state the workers can reach there is a way on to a state where \<^verbatim>\<open>wait()\<close>
  returns.
\<close>

theorem C4_S2_linear_chain:
  assumes "S2_submitted ts"
  shows "(\<exists>ex h. ThreadPoolExecutor_run hw
                   (fold Executor_add_task ts ThreadPoolExecutor_new, S2_heap) (ex, h))
       \<and> (\<forall>ex h. ThreadPoolExecutor_run hw
                   (fold Executor_add_task ts ThreadPoolExecutor_new, S2_heap) (ex, h) \<longrightarrow>
            (\<exists>p. pool_m ex = Some p
               \<and> (\<forall>n<5. get_reachability (h n) = of_nat n)
               \<and> (\<forall>p' h'. worker_step\<^sup>*\<^sup>* (p, h) (p', h')
                       \<and> ThreadPoolExecutor_wait (ex\<lparr>pool_m := Some p'\<rparr>) = Some () \<longrightarrow>
                     get_result (h' 4) = 5 \<and> (\<forall>n<5. get_reachability (h' n) = of_nat n))
               \<and> (\<forall>p' h'. worker_step\<^sup>*\<^sup>* (p, h) (p', h') \<and> is_idle p' \<longrightarrow>
                     get_result (h' 4) = 5 \<and> (\<forall>n<5. get_reachability (h' n) = of_nat n))
               \<and> (0 < hw \<longrightarrow>
                    (\<forall>p' h'. worker_step\<^sup>*\<^sup>* (p, h) (p', h') \<longrightarrow>
                       (\<exists>p'' h''. worker_step\<^sup>*\<^sup>* (p', h') (p'', h'')
                          \<and> ThreadPoolExecutor_wait (ex\<lparr>pool_m := Some p''\<rparr>) = Some ())))))"
proof (intro conjI allI impI)
  show "\<exists>ex h. ThreadPoolExecutor_run hw
                 (fold Executor_add_task ts ThreadPoolExecutor_new, S2_heap) (ex, h)"
    unfolding S2_executor by (rule S2_run_exists [OF assms])
next
  fix ex and h :: "int heap"
  assume "ThreadPoolExecutor_run hw (fold Executor_add_task ts ThreadPoolExecutor_new, S2_heap) (ex, h)"
  then have run: "ThreadPoolExecutor_run hw (\<lparr>pool_m = None, tasks_to_run_m = ts\<rparr>, S2_heap) (ex, h)"
    by (simp add: S2_executor)
  let ?p = "ThreadPool_run (submit_all [0, 1, 2, 3, 4] (ThreadPool_new hw False)) :: nat ThreadPool"
  from S2_run_outcome [OF assms run] have
    o: "pool_m ex = Some ?p" "only_reach S2_heap h" "\<forall>n<5. get_reachability (h n) = of_nat n"
    by simp_all
  note inv0 = S2_inv_initial [OF o(2), of hw]
  have wait: "ThreadPoolExecutor_wait (ex\<lparr>pool_m := Some q\<rparr>) = ThreadPool_wait q" for q
    by (simp add: ThreadPoolExecutor_wait_def)
  have idle: "is_idle q" if "ThreadPool_wait q = Some ()" for q :: "nat ThreadPool"
    using that by (simp add: ThreadPool_wait_def split: if_splits)
  have safe0: "get_result (h' 4) = 5 \<and> (\<forall>n<5. get_reachability (h' n) = of_nat n)"
    if "worker_step\<^sup>*\<^sup>* (?p, h) (p', h') \<and> is_idle p'" for p' h'
  proof -
    from that have "S2_inv h (p', h')" "is_idle p'"
      using S2_inv_reach [OF _ inv0] by auto
    from S2_inv_idle [OF this o(2,3)] show ?thesis by simp
  qed
  have safe: "get_result (h' 4) = 5 \<and> (\<forall>n<5. get_reachability (h' n) = of_nat n)"
    if "worker_step\<^sup>*\<^sup>* (?p, h) (p', h') \<and> ThreadPoolExecutor_wait (ex\<lparr>pool_m := Some p'\<rparr>) = Some ()"
    for p' h'
    using that safe0 [of p' h'] wait idle by auto
  have live: "\<exists>p'' h''. worker_step\<^sup>*\<^sup>* (p', h') (p'', h'')
                \<and> ThreadPoolExecutor_wait (ex\<lparr>pool_m := Some p''\<rparr>) = Some ()"
    if "0 < hw" "worker_step\<^sup>*\<^sup>* (?p, h) (p', h')" for p' h'
  proof -
    from that(2) have i: "S2_inv h (p', h')" by (rule S2_inv_reach [OF _ inv0])
    have "length (workers_m ?p) = hw" by (subst submit_all_five) simp
    with worker_steps_workers [OF that(2)] that(1) have "workers_m p' \<noteq> []"
      by auto
    with S2_wait_returns [OF i] obtain s' where
      "worker_step\<^sup>*\<^sup>* (p', h') s'" "ThreadPool_wait (fst s') = Some ()" by auto
    then show ?thesis using wait by (cases s') auto
  qed
  show "\<exists>p. pool_m ex = Some p
          \<and> (\<forall>n<5. get_reachability (h n) = of_nat n)
          \<and> (\<forall>p' h'. worker_step\<^sup>*\<^sup>* (p, h) (p', h')
                  \<and> ThreadPoolExecutor_wait (ex\<lparr>pool_m := Some p'\<rparr>) = Some () \<longrightarrow>
                get_result (h' 4) = 5 \<and> (\<forall>n<5. get_reachability (h' n) = of_nat n))
          \<and> (\<forall>p' h'. worker_step\<^sup>*\<^sup>* (p, h) (p', h') \<and> is_idle p' \<longrightarrow>
                get_result (h' 4) = 5 \<and> (\<forall>n<5. get_reachability (h' n) = of_nat n))
          \<and> (0 < hw \<longrightarrow>
               (\<forall>p' h'. worker_step\<^sup>*\<^sup>* (p, h) (p', h') \<longrightarrow>
                  (\<exists>p'' h''. worker_step\<^sup>*\<^sup>* (p', h') (p'', h'')
                     \<and> ThreadPoolExecutor_wait (ex\<lparr>pool_m := Some p''\<rparr>) = Some ())))"
    using o(1,3) safe safe0 live by (intro exI [of _ ?p]) blast
qed


lemma S2_submitted_example: "S2_submitted [3, 0, 4, 1, 2]"
  by (auto simp: S2_submitted_def)

theorem C4_S2_linear_chain_witness:
  "S2_submitted [3, 0, 4, 1, 2]
   \<and> (\<exists>ex h p p' h'.
         ThreadPoolExecutor_run 2
           (fold Executor_add_task [3, 0, 4, 1, 2] ThreadPoolExecutor_new, S2_heap) (ex, h)
       \<and> pool_m ex = Some p \<and> worker_step\<^sup>*\<^sup>* (p, h) (p', h')
       \<and> ThreadPoolExecutor_wait (ex\<lparr>pool_m := Some p'\<rparr>) = Some ()
       \<and> get_result (h' 4) = 5
       \<and> map (\<lambda>n. get_reachability (h' n)) [0, 1, 2, 3, 4] = [0, 1, 2, 3, 4])"
proof -
  note c4 = C4_S2_linear_chain [OF S2_submitted_example, of 2]
  from c4 obtain ex h where
    run: "ThreadPoolExecutor_run 2
            (fold Executor_add_task [3, 0, 4, 1, 2] ThreadPoolExecutor_new, S2_heap) (ex, h)"
    by blast
  with c4 obtain p where p: "pool_m ex = Some p"
    and safe: "\<forall>p' h'. worker_step\<^sup>*\<^sup>* (p, h) (p', h')
                 \<and> ThreadPoolExecutor_wait (ex\<lparr>pool_m := Some p'\<rparr>) = Some () \<longrightarrow>
               get_result (h' 4) = 5 \<and> (\<forall>n<5. get_reachability (h' n) = of_nat n)"
    and live: "\<forall>p' h'. worker_step\<^sup>*\<^sup>* (p, h) (p', h') \<longrightarrow>
                 (\<exists>p'' h''. worker_step\<^sup>*\<^sup>* (p', h') (p'', h'')
                    \<and> ThreadPoolExecutor_wait (ex\<lparr>pool_m := Some p''\<rparr>) = Some ())"
    by (metis zero_less_numeral)
  from live obtain p' h' where
    w: "worker_step\<^sup>*\<^sup>* (p, h) (p', h')"
       "ThreadPoolExecutor_wait (ex\<lparr>pool_m := Some p'\<rparr>) = Some ()"
    by blast
  with safe have "get_result (h' 4) = 5" "\<forall>n<5. get_reachability (h' n) = of_nat n" by blast+
  then have "get_result (h' 4) = 5"
    "map (\<lambda>n. get_reachability (h' n)) [0, 1, 2, 3, 4] = [0, 1, 2, 3, 4]" by simp_all
  with run p w have "\<exists>ex h p p' h'.
         ThreadPoolExecutor_run 2
           (fold Executor_add_task [3, 0, 4, 1, 2] ThreadPoolExecutor_new, S2_heap) (ex, h)
       \<and> pool_m ex = Some p \<and> worker_step\<^sup>*\<^sup>* (p, h) (p', h')
       \<and> ThreadPoolExecutor_wait (ex\<lparr>pool_m := Some p'\<rparr>) = Some ()
       \<and> get_result (h' 4) = 5
       \<and> map (\<lambda>n. get_reachability (h' n)) [0, 1, 2, 3, 4] = [0, 1, 2, 3, 4]"
    by (intro exI [of _ ex] exI [of _ h] exI [of _ p] exI [of _ p'] exI [of _ h'] conjI)
  with S2_submitted_example show ?thesis ..
qed

end
